theory Spec2Isabelle
  imports Complex_Main "HOL-Library.Sublist"
begin

section \<open>JavaScript strings\<close>

text \<open>
  A JavaScript string is a sequence of UTF-16 code units. A code unit is modelled by its
  number, so a string is a list of naturals; \<open>U\<close> turns an Isabelle string literal into
  such a list. Only the operations the component calls are modelled: \<open>split('\n')\<close>,
  \<open>trim\<close>, \<open>toLowerCase\<close>, \<open>includes\<close>, \<open>join('\n')\<close> and the conversion of an array
  position to its decimal text.
\<close>

type_synonym jstring = "nat list"

definition U :: "string \<Rightarrow> jstring" where
  "U s = map of_char s"

text \<open>\<open>content.split('\n')\<close>: the pieces between line feeds (code unit 10). The
  result is never empty: the empty text has the single line \<open>''\<close>.\<close>

fun split_nl :: "jstring \<Rightarrow> jstring list" where
  "split_nl [] = [[]]"
| "split_nl (c # cs) =
     (if c = 10 then [] # split_nl cs
      else (case split_nl cs of
              [] \<Rightarrow> [[c]]
            | l # ls \<Rightarrow> (c # l) # ls))"

text \<open>\<open>Array.prototype.join('\n')\<close> on an array of strings.\<close>

fun join_nl :: "jstring list \<Rightarrow> jstring" where
  "join_nl [] = []"
| "join_nl [x] = x"
| "join_nl (x # y # ys) = x @ [10] @ join_nl (y # ys)"

text \<open>The code units \<open>String.prototype.trim\<close> removes: ECMAScript's WhiteSpace and
  LineTerminator (tab, line feed, vertical tab, form feed, carriage return, space,
  no-break space, the Unicode space separators, the line and paragraph separators and
  the byte order mark).\<close>

definition is_trim_space :: "nat \<Rightarrow> bool" where
  "is_trim_space c =
     (c = 9 \<or> c = 10 \<or> c = 11 \<or> c = 12 \<or> c = 13 \<or> c = 32 \<or> c = 160 \<or> c = 5760
      \<or> (8192 \<le> c \<and> c \<le> 8202) \<or> c = 8232 \<or> c = 8233 \<or> c = 8239 \<or> c = 8287
      \<or> c = 12288 \<or> c = 65279)"

definition trim :: "jstring \<Rightarrow> jstring" where
  "trim s = rev (dropWhile is_trim_space (rev (dropWhile is_trim_space s)))"

text \<open>
  \<open>String.prototype.toLowerCase\<close> is the lower-casing of the Unicode standard: a table
  that gives some fourteen hundred letters their small letter, and two rules: a capital
  sigma becomes the final small sigma where it ends a word (it comes after a cased
  letter and no cased letter comes after it, characters that case ignores aside), and
  the capital I with a dot above becomes two code units. The table is no part of the
  program. The functions of the component that lower-case a text take the conversion as
  their first argument \<open>lower\<close>, and what is proved of them is proved for every conversion.

  \<open>toLowerCase\<close> below is the conversion with its two rules and with the table and the
  two character properties of Basic Latin, Latin-1 Supplement and the Greek letters from
  \<open>U+0386\<close> to \<open>U+03CE\<close>; a code unit outside these it leaves as it is. The examples are
  evaluated with it; their texts are made of these characters.
\<close>

definition simple_lower :: "nat \<Rightarrow> nat" where
  "simple_lower c =
     (if 65 \<le> c \<and> c \<le> 90 then c + 32
      else if 192 \<le> c \<and> c \<le> 222 \<and> c \<noteq> 215 then c + 32
      else if c = 902 then 940
      else if 904 \<le> c \<and> c \<le> 906 then c + 37
      else if c = 908 then 972
      else if c = 910 \<or> c = 911 then c + 63
      else if 913 \<le> c \<and> c \<le> 939 \<and> c \<noteq> 930 then c + 32
      else c)"

text \<open>The property \<open>Cased\<close>: the capital and the small letters.\<close>

definition cased :: "nat \<Rightarrow> bool" where
  "cased c =
     ((65 \<le> c \<and> c \<le> 90) \<or> (97 \<le> c \<and> c \<le> 122) \<or> c = 170 \<or> c = 181 \<or> c = 186
      \<or> (192 \<le> c \<and> c \<le> 214) \<or> (216 \<le> c \<and> c \<le> 246) \<or> (248 \<le> c \<and> c \<le> 255)
      \<or> c = 304 \<or> c = 902 \<or> (904 \<le> c \<and> c \<le> 906) \<or> c = 908
      \<or> (910 \<le> c \<and> c \<le> 929) \<or> (931 \<le> c \<and> c \<le> 974))"

text \<open>The property \<open>Case_Ignorable\<close>: apostrophe, full stop, colon, circumflex, grave
  accent, diaeresis, soft hyphen, macron, acute accent, middle dot, cedilla, and the
  Greek ano teleia.\<close>

definition case_ignorable :: "nat \<Rightarrow> bool" where
  "case_ignorable c =
     (c = 39 \<or> c = 46 \<or> c = 58 \<or> c = 94 \<or> c = 96 \<or> c = 168 \<or> c = 173 \<or> c = 175
      \<or> c = 180 \<or> c = 183 \<or> c = 184 \<or> c = 903)"

text \<open>A cased letter comes next, characters that case ignores aside.\<close>

fun before_cased :: "jstring \<Rightarrow> bool" where
  "before_cased [] = False"
| "before_cased (c # cs) = (cased c \<or> (case_ignorable c \<and> before_cased cs))"

text \<open>The conversion from a position of the text; \<open>after\<close> holds when a cased letter
  comes before the position, characters that case ignores aside.\<close>

fun lower_from :: "bool \<Rightarrow> jstring \<Rightarrow> jstring" where
  "lower_from after [] = []"
| "lower_from after (c # cs) =
     (if c = 931 then
        (if after \<and> \<not> before_cased cs then 962 else 963) # lower_from True cs
      else if c = 304 then 105 # 775 # lower_from True cs
      else simple_lower c # lower_from (cased c \<or> (case_ignorable c \<and> after)) cs)"

definition toLowerCase :: "jstring \<Rightarrow> jstring" where
  "toLowerCase s = lower_from False s"

text \<open>\<open>String.prototype.includes\<close>: the argument occurs as a contiguous piece.\<close>

fun starts_with :: "jstring \<Rightarrow> jstring \<Rightarrow> bool" where
  "starts_with s [] = True"
| "starts_with [] (q # qs) = False"
| "starts_with (c # cs) (q # qs) = (c = q \<and> starts_with cs qs)"

fun js_includes :: "jstring \<Rightarrow> jstring \<Rightarrow> bool" where
  "js_includes [] q = (q = [])"
| "js_includes (c # cs) q = (starts_with (c # cs) q \<or> js_includes cs q)"

text \<open>The decimal text of a natural number, as the template literal
  \<open>`Conversation ${index + 1}`\<close> and the property keys of a spread array need it.\<close>

fun show_nat :: "nat \<Rightarrow> jstring" where
  "show_nat n = (if n < 10 then [48 + n] else show_nat (n div 10) @ [48 + n mod 10])"

declare show_nat.simps [simp del]

section \<open>JavaScript values and JSON\<close>

text \<open>
  The numbers of JavaScript are the doubles. A finite number is kept as a sign, a
  mantissa and a binary exponent: \<open>NFinite neg m e\<close> is \<open>m\<close> times two to the \<open>e\<close>, negated
  when \<open>neg\<close> holds, with \<open>m\<close> odd and below \<open>2^53\<close>, \<open>e\<close> not below \<open>-1074\<close> and the value
  below \<open>2^1024\<close> (\<open>is_double\<close>); zero is \<open>NFinite neg 0 0\<close>, of either sign. \<open>NaN\<close> is the
  value of no JSON text, and the program does no arithmetic.
\<close>

datatype number = NFinite bool nat int | NInfinity bool

datatype jsval =
    JUndefined
  | JNull
  | JBool bool
  | JNum number
  | JStr jstring
  | JArr "jsval list"
  | JObj "(jstring \<times> jsval) list"

subsection \<open>Number literals\<close>

definition is_digit :: "nat \<Rightarrow> bool" where
  "is_digit c = (48 \<le> c \<and> c \<le> 57)"

definition digits_val :: "jstring \<Rightarrow> nat" where
  "digits_val ds = foldl (\<lambda>a c. 10 * a + (c - 48)) 0 ds"

text \<open>Digits and a decimal exponent with the zeros at the end of the digits moved into
  the exponent.\<close>

function strip10 :: "nat \<Rightarrow> int \<Rightarrow> nat \<times> int" where
  "strip10 m e = (if m \<noteq> 0 \<and> m mod 10 = 0 then strip10 (m div 10) (e + 1) else (m, e))"
  by pat_completeness auto
termination
  by (relation "measure (\<lambda>(m, e). m)") auto

declare strip10.simps [simp del]

text \<open>The number of binary digits of a natural number.\<close>

function bit_length :: "nat \<Rightarrow> nat" where
  "bit_length n = (if n = 0 then 0 else Suc (bit_length (n div 2)))"
  by pat_completeness auto
termination
  by (relation "measure id") auto

declare bit_length.simps [simp del]

text \<open>The fraction \<open>n / d\<close> divided by two to the \<open>q\<close>, as a fraction again.\<close>

definition scale2 :: "nat \<Rightarrow> nat \<Rightarrow> int \<Rightarrow> nat \<times> nat" where
  "scale2 n d q = (if 0 \<le> q then (n, d * 2 ^ nat q) else (n * 2 ^ nat (- q), d))"

text \<open>The binary exponent of a positive fraction \<open>n / d\<close>: the \<open>q\<close> with
  \<open>2^q \<le> n / d < 2^(q + 1)\<close>.\<close>

definition floor_log2 :: "nat \<Rightarrow> nat \<Rightarrow> int" where
  "floor_log2 n d =
     (let t = int (bit_length n) - int (bit_length d) in
      case scale2 n d t of (a, b) \<Rightarrow> if b \<le> a then t else t - 1)"

text \<open>The integer nearest to the fraction \<open>a / b\<close>, the even one of two that are equally
  near.\<close>

definition round_half_even :: "nat \<Rightarrow> nat \<Rightarrow> nat" where
  "round_half_even a b =
     (let f = a div b; r = a mod b in
      if 2 * r < b then f else if b < 2 * r then f + 1 else if even f then f else f + 1)"

function strip2 :: "nat \<Rightarrow> int \<Rightarrow> nat \<times> int" where
  "strip2 m e = (if m \<noteq> 0 \<and> even m then strip2 (m div 2) (e + 1) else (m, e))"
  by pat_completeness auto
termination
  by (relation "measure (\<lambda>(m, e). m)") auto

declare strip2.simps [simp del]

text \<open>
  The Number value for the fraction \<open>n / d\<close> (IEEE 754 round to nearest, ties to even):
  the fraction is brought to 53 binary digits before the point, or to the exponent
  \<open>-1074\<close> of the subnormal numbers, and rounded there; a result of \<open>2^1024\<close> or more is
  an infinity, and a fraction that rounds to nothing is a zero of its sign.
\<close>

definition to_double :: "bool \<Rightarrow> nat \<Rightarrow> nat \<Rightarrow> number" where
  "to_double neg n d =
     (if n = 0 then NFinite neg 0 0
      else
        (let q = max (- 1074) (floor_log2 n d - 52);
             r = (case scale2 n d q of (a, b) \<Rightarrow> round_half_even a b) in
         if r = 0 then NFinite neg 0 0
         else if 971 < q \<or> (q = 971 \<and> r = 2 ^ 53) then NInfinity neg
         else (case strip2 r q of (m, e) \<Rightarrow> NFinite neg m e)))"

text \<open>The Number value of a decimal literal with the digits \<open>m\<close> and the exponent
  \<open>e\<close>: the double nearest to it. (For a literal of more than twenty significant digits
  ECMAScript also allows the value of the literal cut after the twentieth digit; the
  engines round the literal itself, as here.)\<close>

definition make_number :: "bool \<Rightarrow> nat \<Rightarrow> int \<Rightarrow> number" where
  "make_number neg m e =
     (if 0 \<le> e then to_double neg (m * 10 ^ nat e) 1 else to_double neg m (10 ^ nat (- e)))"

definition parse_int :: "jstring \<Rightarrow> (jstring \<times> jstring) option" where
  "parse_int s =
     (case s of
        [] \<Rightarrow> None
      | c # cs \<Rightarrow>
          if c = 48 then Some ([48], cs)
          else if is_digit c then Some (takeWhile is_digit s, dropWhile is_digit s)
          else None)"

definition parse_frac :: "jstring \<Rightarrow> (jstring \<times> jstring) option" where
  "parse_frac s =
     (case s of
        [] \<Rightarrow> Some ([], [])
      | c # cs \<Rightarrow>
          if c = 46 then
            (if takeWhile is_digit cs = [] then None
             else Some (takeWhile is_digit cs, dropWhile is_digit cs))
          else Some ([], s))"

definition parse_exp_digits :: "bool \<Rightarrow> jstring \<Rightarrow> (int \<times> jstring) option" where
  "parse_exp_digits neg s =
     (if takeWhile is_digit s = [] then None
      else Some ((if neg then - int (digits_val (takeWhile is_digit s))
                  else int (digits_val (takeWhile is_digit s))),
                 dropWhile is_digit s))"

definition parse_exp :: "jstring \<Rightarrow> (int \<times> jstring) option" where
  "parse_exp s =
     (case s of
        [] \<Rightarrow> Some (0, [])
      | c # cs \<Rightarrow>
          if c = 101 \<or> c = 69 then
            (case cs of
               [] \<Rightarrow> None
             | d # ds \<Rightarrow>
                 if d = 43 then parse_exp_digits False ds
                 else if d = 45 then parse_exp_digits True ds
                 else parse_exp_digits False cs)
          else Some (0, s))"

definition parse_unsigned :: "bool \<Rightarrow> jstring \<Rightarrow> (number \<times> jstring) option" where
  "parse_unsigned neg s =
     (case parse_int s of
        None \<Rightarrow> None
      | Some (ip, s1) \<Rightarrow>
          (case parse_frac s1 of
             None \<Rightarrow> None
           | Some (fp, s2) \<Rightarrow>
               (case parse_exp s2 of
                  None \<Rightarrow> None
                | Some (ex, s3) \<Rightarrow>
                    Some (make_number neg (digits_val (ip @ fp)) (ex - int (length fp)), s3))))"

definition parse_number :: "jstring \<Rightarrow> (number \<times> jstring) option" where
  "parse_number s =
     (case s of
        [] \<Rightarrow> None
      | c # cs \<Rightarrow> if c = 45 then parse_unsigned True cs else parse_unsigned False s)"

text \<open>\<open>Number::toString\<close> lays out the decimal digits \<open>ds\<close> (\<open>k\<close> of them) with the
  decimal point after \<open>n = k + e\<close> digits: plain digits, a decimal point inside, a leading
  \<open>0.\<close>, or the exponent form, as ECMAScript has them.\<close>

definition layout_number :: "jstring \<Rightarrow> int \<Rightarrow> jstring" where
  "layout_number ds e =
     (let k = int (length ds); n = k + e in
      if k \<le> n \<and> n \<le> 21 then ds @ replicate (nat (n - k)) 48
      else if 0 < n \<and> n \<le> 21 then take (nat n) ds @ [46] @ drop (nat n) ds
      else if - 6 < n \<and> n \<le> 0 then [48, 46] @ replicate (nat (- n)) 48 @ ds
      else (if length ds = 1 then ds else take 1 ds @ [46] @ drop 1 ds)
           @ [101] @ (if 0 \<le> n - 1 then [43] else [45]) @ show_nat (nat \<bar>n - 1\<bar>))"

text \<open>The double \<open>m\<close> times two to the \<open>e\<close> written exactly as digits and a decimal
  exponent.\<close>

definition exact_decimal :: "nat \<Rightarrow> int \<Rightarrow> nat \<times> int" where
  "exact_decimal m e = (if 0 \<le> e then (m * 2 ^ nat e, 0) else (m * 5 ^ nat (- e), e))"

text \<open>
  The digits \<open>Number::toString\<close> chooses are the fewest whose decimal has the number as
  its Number value. With \<open>j\<close> of the exact digits \<open>s\<close> cut off, the two decimals next to
  the number are tried: the one below and the one above; of two that both do, the nearer
  one is taken, and the even one of two equally near (ECMAScript leaves the choice open
  and recommends this one).
\<close>

definition candidate ::
  "bool \<Rightarrow> nat \<Rightarrow> int \<Rightarrow> nat \<Rightarrow> int \<Rightarrow> nat \<Rightarrow> (nat \<times> int) option" where
  "candidate neg m e s t j =
     (let lo = s div 10 ^ j; hi = lo + 1; u = t + int j;
          lo_ok = (make_number neg lo u = NFinite neg m e);
          hi_ok = (make_number neg hi u = NFinite neg m e);
          below = s - lo * 10 ^ j; above = hi * 10 ^ j - s in
      if lo_ok \<and> (\<not> hi_ok \<or> below < above \<or> (below = above \<and> even lo)) then Some (lo, u)
      else if hi_ok then Some (hi, u)
      else None)"

fun first_candidate :: "(nat \<Rightarrow> 'a option) \<Rightarrow> nat \<Rightarrow> 'a option" where
  "first_candidate f 0 = None"
| "first_candidate f (Suc j) =
     (case f (Suc j) of Some c \<Rightarrow> Some c | None \<Rightarrow> first_candidate f j)"

text \<open>One digit is tried first, then two, and so on; the exact digits do when no fewer
  do.\<close>

definition shortest_decimal :: "bool \<Rightarrow> nat \<Rightarrow> int \<Rightarrow> nat \<times> int" where
  "shortest_decimal neg m e =
     (case exact_decimal m e of
        (s, t) \<Rightarrow>
          (case first_candidate (candidate neg m e s t) (length (show_nat s) - 1) of
             Some c \<Rightarrow> c
           | None \<Rightarrow> (s, t)))"

text \<open>\<open>Number::toString\<close>: both zeros are written \<open>0\<close>.\<close>

definition number_to_string :: "number \<Rightarrow> jstring" where
  "number_to_string x =
     (case x of
        NInfinity neg \<Rightarrow> (if neg then U ''-Infinity'' else U ''Infinity'')
      | NFinite neg m e \<Rightarrow>
          if m = 0 then [48]
          else
            (case shortest_decimal neg m e of
               (s, t) \<Rightarrow>
                 (case strip10 s t of
                    (s', t') \<Rightarrow> (if neg then [45] else []) @ layout_number (show_nat s') t')))"

subsection \<open>String literals\<close>

definition hex_val :: "nat \<Rightarrow> nat option" where
  "hex_val c =
     (if 48 \<le> c \<and> c \<le> 57 then Some (c - 48)
      else if 97 \<le> c \<and> c \<le> 102 then Some (c - 87)
      else if 65 \<le> c \<and> c \<le> 70 then Some (c - 55)
      else None)"

text \<open>The four hexadecimal digits after \<open>\u\<close>.\<close>

definition hex4 :: "jstring \<Rightarrow> nat option" where
  "hex4 s =
     (case s of
        a # b # c # d # _ \<Rightarrow>
          (case (hex_val a, hex_val b, hex_val c, hex_val d) of
             (Some x, Some y, Some z, Some w) \<Rightarrow> Some (((x * 16 + y) * 16 + z) * 16 + w)
           | _ \<Rightarrow> None)
      | _ \<Rightarrow> None)"

text \<open>The single-character escapes: quotation mark, reverse solidus, solidus,
  \<open>b f n r t\<close>.\<close>

definition unescape :: "nat \<Rightarrow> nat option" where
  "unescape e =
     (if e = 34 then Some 34
      else if e = 92 then Some 92
      else if e = 47 then Some 47
      else if e = 98 then Some 8
      else if e = 102 then Some 12
      else if e = 110 then Some 10
      else if e = 114 then Some 13
      else if e = 116 then Some 9
      else None)"

text \<open>The characters of a string literal after its opening quotation mark, up to the
  closing one: the string denoted and the rest of the input. A control character
  (below 32) may not stand unescaped.\<close>

function parse_chars :: "jstring \<Rightarrow> (jstring \<times> jstring) option" where
  "parse_chars [] = None"
| "parse_chars (c # cs) =
     (if c = 34 then Some ([], cs)
      else if c = 92 then
        (case cs of
           [] \<Rightarrow> None
         | e # r \<Rightarrow>
             if e = 117 then
               (case hex4 r of
                  None \<Rightarrow> None
                | Some u \<Rightarrow>
                    (case parse_chars (drop 4 r) of
                       None \<Rightarrow> None
                     | Some (s, rest) \<Rightarrow> Some (u # s, rest)))
             else
               (case unescape e of
                  None \<Rightarrow> None
                | Some u \<Rightarrow>
                    (case parse_chars r of
                       None \<Rightarrow> None
                     | Some (s, rest) \<Rightarrow> Some (u # s, rest))))
      else if c < 32 then None
      else
        (case parse_chars cs of
           None \<Rightarrow> None
         | Some (s, rest) \<Rightarrow> Some (c # s, rest)))"
  by pat_completeness auto
termination
  by (relation "measure length") auto

declare parse_chars.simps [simp del]

definition hex_digit :: "nat \<Rightarrow> nat" where
  "hex_digit d = (if d < 10 then 48 + d else 87 + d)"

text \<open>\<open>\uXXXX\<close> with lower-case hexadecimal digits, as \<open>JSON.stringify\<close> writes it.\<close>

definition unicode_escape :: "nat \<Rightarrow> jstring" where
  "unicode_escape c =
     [92, 117, hex_digit (c div 4096 mod 16), hex_digit (c div 256 mod 16),
      hex_digit (c div 16 mod 16), hex_digit (c mod 16)]"

definition is_high_surrogate :: "nat \<Rightarrow> bool" where
  "is_high_surrogate c = (55296 \<le> c \<and> c \<le> 56319)"

definition is_low_surrogate :: "nat \<Rightarrow> bool" where
  "is_low_surrogate c = (56320 \<le> c \<and> c \<le> 57343)"

text \<open>\<open>QuoteJSONString\<close>: a code unit that is not half of a surrogate pair is written
  as its short escape, as \<open>\uXXXX\<close> when it is another control character or a surrogate
  (one that has no partner), and as it is otherwise; a surrogate pair is written as it
  is.\<close>

definition quote_unit :: "nat \<Rightarrow> jstring" where
  "quote_unit c =
     (if c = 8 then [92, 98]
      else if c = 9 then [92, 116]
      else if c = 10 then [92, 110]
      else if c = 12 then [92, 102]
      else if c = 13 then [92, 114]
      else if c = 34 then [92, 34]
      else if c = 92 then [92, 92]
      else if c < 32 \<or> is_high_surrogate c \<or> is_low_surrogate c then unicode_escape c
      else [c])"

fun quote_chars :: "jstring \<Rightarrow> jstring" where
  "quote_chars [] = []"
| "quote_chars [c] = quote_unit c"
| "quote_chars (c # d # cs) =
     (if is_high_surrogate c \<and> is_low_surrogate d then c # d # quote_chars cs
      else quote_unit c @ quote_chars (d # cs))"

definition quote :: "jstring \<Rightarrow> jstring" where
  "quote s = [34] @ quote_chars s @ [34]"

subsection \<open>Property order of an object\<close>

text \<open>
  An object is the list of its own properties in the order JavaScript enumerates them:
  the array-index keys (canonical decimal numerals up to \<open>2^32 - 2\<close>) in ascending
  order first, then the other keys in the order of their creation. \<open>define_prop\<close> is
  \<open>CreateDataProperty\<close>: an existing key keeps its place and takes the new value, a new
  key is put where the enumeration order has it.
\<close>

definition array_index :: "jstring \<Rightarrow> nat option" where
  "array_index k =
     (if k \<noteq> [] \<and> list_all is_digit k \<and> (k = [48] \<or> hd k \<noteq> 48)
         \<and> digits_val k \<le> 4294967294
      then Some (digits_val k) else None)"

definition key_before :: "jstring \<Rightarrow> jstring \<Rightarrow> bool" where
  "key_before k k' =
     (case array_index k of
        None \<Rightarrow> False
      | Some i \<Rightarrow> (case array_index k' of None \<Rightarrow> True | Some j \<Rightarrow> i < j))"

fun insert_prop :: "(jstring \<times> jsval) list \<Rightarrow> jstring \<Rightarrow> jsval \<Rightarrow> (jstring \<times> jsval) list" where
  "insert_prop [] k v = [(k, v)]"
| "insert_prop ((k', v') # ps) k v =
     (if key_before k k' then (k, v) # (k', v') # ps else (k', v') # insert_prop ps k v)"

fun replace_prop :: "(jstring \<times> jsval) list \<Rightarrow> jstring \<Rightarrow> jsval \<Rightarrow> (jstring \<times> jsval) list" where
  "replace_prop [] k v = []"
| "replace_prop ((k', v') # ps) k v =
     (if k' = k then (k, v) # ps else (k', v') # replace_prop ps k v)"

definition define_prop :: "(jstring \<times> jsval) list \<Rightarrow> jstring \<Rightarrow> jsval \<Rightarrow> (jstring \<times> jsval) list" where
  "define_prop ps k v =
     (if k \<in> set (map fst ps) then replace_prop ps k v else insert_prop ps k v)"

definition build_object :: "(jstring \<times> jsval) list \<Rightarrow> (jstring \<times> jsval) list" where
  "build_object kvs = foldl (\<lambda>ps (k, v). define_prop ps k v) [] kvs"

text \<open>Reading a property of an object: its value, or nothing (\<open>undefined\<close>).\<close>

definition get_prop :: "(jstring \<times> jsval) list \<Rightarrow> jstring \<Rightarrow> jsval option" where
  "get_prop ps k = map_of ps k"

subsection \<open>\<open>JSON.parse\<close>\<close>

text \<open>JSON's insignificant white space: space, tab, line feed, carriage return.\<close>

definition is_json_ws :: "nat \<Rightarrow> bool" where
  "is_json_ws c = (c = 32 \<or> c = 9 \<or> c = 10 \<or> c = 13)"

definition skip_ws :: "jstring \<Rightarrow> jstring" where
  "skip_ws s = dropWhile is_json_ws s"

text \<open>
  A recursive-descent reader of one JSON value: the value and the input after it, or
  \<open>None\<close> where \<open>JSON.parse\<close> throws a SyntaxError. The first argument bounds the
  number of nested calls; \<open>JSON_parse\<close> starts it above the length of the text, which
  no text uses up (\<open>parse_value_fuel\<close> below).
\<close>

fun parse_value :: "nat \<Rightarrow> jstring \<Rightarrow> (jsval \<times> jstring) option"
  and parse_elements :: "nat \<Rightarrow> jstring \<Rightarrow> (jsval list \<times> jstring) option"
  and parse_members :: "nat \<Rightarrow> jstring \<Rightarrow> ((jstring \<times> jsval) list \<times> jstring) option"
where
  "parse_value 0 s = None"
| "parse_value (Suc n) s =
     (case skip_ws s of
        [] \<Rightarrow> None
      | c # cs \<Rightarrow>
          if c = 123 then
            (case skip_ws cs of
               [] \<Rightarrow> None
             | d # ds \<Rightarrow>
                 if d = 125 then Some (JObj [], ds)
                 else (case parse_members n (d # ds) of
                         None \<Rightarrow> None
                       | Some (kvs, rest) \<Rightarrow> Some (JObj (build_object kvs), rest)))
          else if c = 91 then
            (case skip_ws cs of
               [] \<Rightarrow> None
             | d # ds \<Rightarrow>
                 if d = 93 then Some (JArr [], ds)
                 else (case parse_elements n (d # ds) of
                         None \<Rightarrow> None
                       | Some (vs, rest) \<Rightarrow> Some (JArr vs, rest)))
          else if c = 34 then
            (case parse_chars cs of
               None \<Rightarrow> None
             | Some (str, rest) \<Rightarrow> Some (JStr str, rest))
          else if c = 45 \<or> is_digit c then
            (case parse_number (c # cs) of
               None \<Rightarrow> None
             | Some (x, rest) \<Rightarrow> Some (JNum x, rest))
          else if starts_with (c # cs) (U ''true'') then Some (JBool True, drop 4 (c # cs))
          else if starts_with (c # cs) (U ''false'') then Some (JBool False, drop 5 (c # cs))
          else if starts_with (c # cs) (U ''null'') then Some (JNull, drop 4 (c # cs))
          else None)"
| "parse_elements 0 s = None"
| "parse_elements (Suc n) s =
     (case parse_value n s of
        None \<Rightarrow> None
      | Some (v, r) \<Rightarrow>
          (case skip_ws r of
             [] \<Rightarrow> None
           | c # cs \<Rightarrow>
               if c = 44 then
                 (case parse_elements n cs of
                    None \<Rightarrow> None
                  | Some (vs, rest) \<Rightarrow> Some (v # vs, rest))
               else if c = 93 then Some ([v], cs)
               else None))"
| "parse_members 0 s = None"
| "parse_members (Suc n) s =
     (case skip_ws s of
        [] \<Rightarrow> None
      | c # cs \<Rightarrow>
          if c = 34 then
            (case parse_chars cs of
               None \<Rightarrow> None
             | Some (k, r) \<Rightarrow>
                 (case skip_ws r of
                    [] \<Rightarrow> None
                  | d # ds \<Rightarrow>
                      if d = 58 then
                        (case parse_value n ds of
                           None \<Rightarrow> None
                         | Some (v, r') \<Rightarrow>
                             (case skip_ws r' of
                                [] \<Rightarrow> None
                              | e # es \<Rightarrow>
                                  if e = 44 then
                                    (case parse_members n es of
                                       None \<Rightarrow> None
                                     | Some (kvs, rest) \<Rightarrow> Some ((k, v) # kvs, rest))
                                  else if e = 125 then Some ([(k, v)], es)
                                  else None))
                      else None))
          else None)"

text \<open>\<open>JSON.parse(text)\<close>: one value, with nothing but white space after it.\<close>

definition JSON_parse :: "jstring \<Rightarrow> jsval option" where
  "JSON_parse s =
     (case parse_value (Suc (length s)) s of
        None \<Rightarrow> None
      | Some (v, rest) \<Rightarrow> if skip_ws rest = [] then Some v else None)"

subsection \<open>\<open>JSON.stringify\<close>\<close>

fun join_comma :: "jstring list \<Rightarrow> jstring" where
  "join_comma [] = []"
| "join_comma [x] = x"
| "join_comma (x # y # ys) = x @ [44] @ join_comma (y # ys)"

text \<open>
  \<open>SerializeJSONProperty\<close> with no indentation: \<open>None\<close> is its result \<open>undefined\<close>. A
  number that is not finite is written \<open>null\<close>; in an array \<open>undefined\<close> is written
  \<open>null\<close>; a property whose value is \<open>undefined\<close> is left out.
\<close>

fun ser :: "jsval \<Rightarrow> jstring option"
  and ser_elements :: "jsval list \<Rightarrow> jstring list"
  and ser_members :: "(jstring \<times> jsval) list \<Rightarrow> jstring list"
where
  "ser JUndefined = None"
| "ser JNull = Some (U ''null'')"
| "ser (JBool b) = Some (if b then U ''true'' else U ''false'')"
| "ser (JNum x) =
     Some (case x of NInfinity neg \<Rightarrow> U ''null'' | NFinite neg m e \<Rightarrow> number_to_string x)"
| "ser (JStr s) = Some (quote s)"
| "ser (JArr vs) = Some ([91] @ join_comma (ser_elements vs) @ [93])"
| "ser (JObj ps) = Some ([123] @ join_comma (ser_members ps) @ [125])"
| "ser_elements [] = []"
| "ser_elements (v # vs) =
     (case ser v of None \<Rightarrow> U ''null'' | Some t \<Rightarrow> t) # ser_elements vs"
| "ser_members [] = []"
| "ser_members ((k, v) # ps) =
     (case ser v of
        None \<Rightarrow> ser_members ps
      | Some t \<Rightarrow> (quote k @ [58] @ t) # ser_members ps)"

definition JSON_stringify :: "jsval \<Rightarrow> jstring option" where
  "JSON_stringify v = ser v"

section \<open>The component state\<close>

text \<open>
  A value held in a variable is a primitive or a reference to an object. \<open>JSON.parse\<close>
  makes a new object for every object or array it reads, and \<open>===\<close> and \<open>indexOf\<close> compare
  objects by reference; so the conversations of the collection and the selected conversation
  are references into a heap of top-level objects, and a primitive is held as it is. The
  values below a top-level object are never compared by reference and never shared between
  two top-level objects that the code updates in place, so each heap cell holds a tree.
  An address is the position of its cell: a new object is put at the end of the heap.
\<close>

datatype jsref = Prim jsval | Obj nat

type_synonym heap = "jsval list"

definition is_object :: "jsval \<Rightarrow> bool" where
  "is_object v = (case v of JArr _ \<Rightarrow> True | JObj _ \<Rightarrow> True | _ \<Rightarrow> False)"

definition new_ref :: "heap \<Rightarrow> jsval \<Rightarrow> jsref \<times> heap" where
  "new_ref h v = (if is_object v then (Obj (length h), h @ [v]) else (Prim v, h))"

definition deref :: "heap \<Rightarrow> jsref \<Rightarrow> jsval" where
  "deref h r = (case r of Prim v \<Rightarrow> v | Obj a \<Rightarrow> if a < length h then h ! a else JUndefined)"

text \<open>\<open>interface ParsingError { line: number; content: string }\<close>\<close>

record ParsingError =
  line :: nat
  content :: jstring

text \<open>The state hooks of the component (\<open>useState\<close>), with the heap they refer to.
  \<open>selectedConversation\<close> is \<open>Conversation | null\<close>: \<open>null\<close> is \<open>Prim JNull\<close>.\<close>

record store =
  heap :: heap
  conversations :: "jsref list"
  selectedConversation :: jsref
  searchTerm :: jstring
  errors :: "ParsingError list"
  editingMessage :: "int option"
  editedContent :: jstring

definition initial_store :: store where
  "initial_store =
     \<lparr>heap = [], conversations = [], selectedConversation = Prim JNull, searchTerm = [],
      errors = [], editingMessage = None, editedContent = []\<rparr>"

datatype js_error = TypeError

text \<open>What a handler does outside the state: a toast (title, description), a file handed
  to the browser (name, MIME type, text), a request to the server (URL, body).\<close>

datatype effect =
    Toast jstring jstring
  | DownloadFile jstring jstring jstring
  | Post jstring jstring
  | Get jstring

text \<open>Reading an array at a position: the element, or nothing (\<open>undefined\<close>) outside
  the array.\<close>

definition js_nth :: "'a list \<Rightarrow> int \<Rightarrow> 'a option" where
  "js_nth xs i = (if 0 \<le> i \<and> nat i < length xs then Some (xs ! nat i) else None)"

text \<open>Writing an array at a position: inside the array the element is replaced; beyond
  its end the array grows, the positions in between holding \<open>hole\<close>; a negative position
  names a property that is no element, and the elements stay as they are.\<close>

definition js_assign :: "'a \<Rightarrow> 'a list \<Rightarrow> int \<Rightarrow> 'a \<Rightarrow> 'a list" where
  "js_assign hole xs i v =
     (if i < 0 then xs
      else if nat i < length xs then xs[nat i := v]
      else xs @ replicate (nat i - length xs) hole @ [v])"

text \<open>\<open>Array.prototype.indexOf\<close>: the first position holding the value, or \<open>-1\<close>.\<close>

fun index_from :: "nat \<Rightarrow> 'a list \<Rightarrow> 'a \<Rightarrow> int" where
  "index_from i [] x = - 1"
| "index_from i (y # ys) x = (if y = x then int i else index_from (Suc i) ys x)"

definition indexOf :: "'a list \<Rightarrow> 'a \<Rightarrow> int" where
  "indexOf xs x = index_from 0 xs x"

text \<open>The values a condition takes as true: every object, and every primitive but
  \<open>undefined\<close>, \<open>null\<close>, \<open>false\<close>, the two zeros and the empty string.\<close>

definition truthy :: "jsref \<Rightarrow> bool" where
  "truthy r =
     (case r of
        Obj a \<Rightarrow> True
      | Prim v \<Rightarrow>
          (case v of
             JUndefined \<Rightarrow> False
           | JNull \<Rightarrow> False
           | JBool b \<Rightarrow> b
           | JNum x \<Rightarrow> (case x of NFinite neg m e \<Rightarrow> m \<noteq> 0 | NInfinity neg \<Rightarrow> True)
           | JStr s \<Rightarrow> s \<noteq> []
           | _ \<Rightarrow> True))"

section \<open>Import\<close>

text \<open>The body of \<open>lines.forEach((line, index) => ...)\<close> in \<open>parseContent\<close>, on the
  heap and the two arrays \<open>parsedConversations\<close> and \<open>newErrors\<close>.\<close>

definition parse_line ::
  "heap \<times> jsref list \<times> ParsingError list \<Rightarrow> nat \<times> jstring
    \<Rightarrow> heap \<times> jsref list \<times> ParsingError list" where
  "parse_line acc il =
     (case acc of (h, parsedConversations, newErrors) \<Rightarrow>
      (case il of (index, l) \<Rightarrow>
         if trim l \<noteq> [] then
           (case JSON_parse l of
              Some parsedLine \<Rightarrow>
                (case new_ref h parsedLine of
                   (r, h') \<Rightarrow> (h', parsedConversations @ [r], newErrors))
            | None \<Rightarrow>
                (h, parsedConversations, newErrors @ [\<lparr>line = index + 1, content = l\<rparr>]))
         else acc))"

definition parseContent :: "store \<Rightarrow> jstring \<Rightarrow> store" where
  "parseContent st text =
     (case foldl parse_line (heap st, [], []) (enumerate 0 (split_nl text)) of
        (h, parsedConversations, newErrors) \<Rightarrow>
          st\<lparr>heap := h, conversations := parsedConversations,
             selectedConversation := Prim JNull, errors := newErrors\<rparr>)"

section \<open>Selection, search, and the automatic selection\<close>

definition handleConversationSelect :: "store \<Rightarrow> int \<Rightarrow> store" where
  "handleConversationSelect st index =
     st\<lparr>selectedConversation :=
          (case js_nth (conversations st) index of None \<Rightarrow> Prim JUndefined | Some c \<Rightarrow> c),
        editingMessage := None\<rparr>"

definition handleSearchChange :: "store \<Rightarrow> jstring \<Rightarrow> store" where
  "handleSearchChange st v = st\<lparr>searchTerm := v\<rparr>"

text \<open>The pencil button of a message: \<open>setEditingMessage(messageIndex)\<close> and
  \<open>setEditedContent(message.content)\<close>; the text area: \<open>setEditedContent(e.target.value)\<close>.\<close>

definition setEditingMessage :: "store \<Rightarrow> int option \<Rightarrow> store" where
  "setEditingMessage st m = st\<lparr>editingMessage := m\<rparr>"

definition setEditedContent :: "store \<Rightarrow> jstring \<Rightarrow> store" where
  "setEditedContent st t = st\<lparr>editedContent := t\<rparr>"

definition conversation_label :: "nat \<Rightarrow> jstring" where
  "conversation_label index = U ''Conversation '' @ show_nat (index + 1)"

text \<open>The callback of \<open>conversations.filter((conv, index) => ...)\<close>, with \<open>lower\<close> for
  \<open>toLowerCase\<close>. \<open>JSON.stringify\<close> of \<open>undefined\<close> is \<open>undefined\<close>, and \<open>toLowerCase\<close> of that
  throws.\<close>

definition matches ::
  "(jstring \<Rightarrow> jstring) \<Rightarrow> heap \<Rightarrow> jstring \<Rightarrow> nat \<times> jsref \<Rightarrow> js_error + bool" where
  "matches lower h term ic =
     (case ic of (index, conv) \<Rightarrow>
        (case JSON_stringify (deref h conv) of
           None \<Rightarrow> Inl TypeError
         | Some searchContent \<Rightarrow>
             Inr (js_includes (lower searchContent) (lower term)
                  \<or> js_includes (lower (conversation_label index)) (lower term))))"

fun filter_js :: "('a \<Rightarrow> js_error + bool) \<Rightarrow> 'a list \<Rightarrow> js_error + 'a list" where
  "filter_js p [] = Inr []"
| "filter_js p (x # xs) =
     (case p x of
        Inl e \<Rightarrow> Inl e
      | Inr b \<Rightarrow>
          (case filter_js p xs of
             Inl e \<Rightarrow> Inl e
           | Inr ys \<Rightarrow> Inr (if b then x # ys else ys)))"

definition filter_conversations ::
  "(jstring \<Rightarrow> jstring) \<Rightarrow> heap \<Rightarrow> jstring \<Rightarrow> jsref list \<Rightarrow> js_error + jsref list" where
  "filter_conversations lower h term convs =
     (case filter_js (matches lower h term) (enumerate 0 convs) of
        Inl e \<Rightarrow> Inl e
      | Inr ics \<Rightarrow> Inr (map snd ics))"

definition filteredConversations :: "(jstring \<Rightarrow> jstring) \<Rightarrow> store \<Rightarrow> js_error + jsref list" where
  "filteredConversations lower st =
     filter_conversations lower (heap st) (searchTerm st) (conversations st)"

text \<open>The effect that runs after a render: with a non-empty filtered list and nothing
  selected, the first filtered conversation is selected.\<close>

definition autoSelect :: "(jstring \<Rightarrow> jstring) \<Rightarrow> store \<Rightarrow> js_error + store" where
  "autoSelect lower st =
     (case filteredConversations lower st of
        Inl e \<Rightarrow> Inl e
      | Inr fs \<Rightarrow>
          Inr (if length fs > 0 \<and> \<not> truthy (selectedConversation st)
               then st\<lparr>selectedConversation := fs ! 0\<rparr> else st))"

section \<open>Edit\<close>

text \<open>The own enumerable properties of a value, which an object spread \<open>{ ...v }\<close>
  copies: those of an object; the elements of an array and the code units of a string
  under their positions; none of \<open>undefined\<close>, \<open>null\<close>, a boolean or a number.\<close>

definition own_props :: "jsval \<Rightarrow> (jstring \<times> jsval) list" where
  "own_props v =
     (case v of
        JObj ps \<Rightarrow> ps
      | JArr vs \<Rightarrow> map (\<lambda>(i, x). (show_nat i, x)) (enumerate 0 vs)
      | JStr s \<Rightarrow> map (\<lambda>(i, c). (show_nat i, JStr [c])) (enumerate 0 s)
      | _ \<Rightarrow> [])"

text \<open>The code points a string iterates over: a surrogate pair is one of them.\<close>

fun code_points :: "jstring \<Rightarrow> jstring list" where
  "code_points [] = []"
| "code_points [c] = [[c]]"
| "code_points (c # d # cs) =
     (if is_high_surrogate c \<and> is_low_surrogate d then [c, d] # code_points cs
      else [c] # code_points (d # cs))"

text \<open>An array spread \<open>[...v]\<close> of the value read from a property (\<open>None\<close> is
  \<open>undefined\<close>): the elements of an array, the code points of a string; every other
  value is not iterable.\<close>

definition arr_spread :: "jsval option \<Rightarrow> js_error + jsval list" where
  "arr_spread v =
     (case v of
        Some (JArr vs) \<Rightarrow> Inr vs
      | Some (JStr s) \<Rightarrow> Inr (map JStr (code_points s))
      | _ \<Rightarrow> Inl TypeError)"

text \<open>
  The lines both state updaters of \<open>handleMessageEdit\<close> in \<open>page.tsx\<close> share:
  \<open>const updatedMessages = [...x.messages]\<close> and
  \<open>updatedMessages[messageIndex] = { ...updatedMessages[messageIndex], content: editedContent }\<close>.
\<close>

definition edit_messages :: "jsval option \<Rightarrow> int \<Rightarrow> jstring \<Rightarrow> js_error + jsval list" where
  "edit_messages msgs messageIndex draft =
     (case arr_spread msgs of
        Inl e \<Rightarrow> Inl e
      | Inr updatedMessages \<Rightarrow>
          Inr (js_assign JUndefined updatedMessages messageIndex
                 (JObj (define_prop
                    (own_props (case js_nth updatedMessages messageIndex of
                                  None \<Rightarrow> JUndefined | Some m \<Rightarrow> m))
                    (U ''content'') (JStr draft)))))"

text \<open>The updater given to \<open>setConversations\<close>: a copy of the array, in which the
  conversation at \<open>conversationIndex\<close> is a new object with a new message array.\<close>

definition update_conversations ::
  "heap \<Rightarrow> jsref list \<Rightarrow> int \<Rightarrow> int \<Rightarrow> jstring \<Rightarrow> js_error + (heap \<times> jsref list)" where
  "update_conversations h prevConversations conversationIndex messageIndex draft =
     (let updatedConversation =
            own_props (case js_nth prevConversations conversationIndex of
                         None \<Rightarrow> JUndefined | Some c \<Rightarrow> deref h c)
      in case edit_messages (get_prop updatedConversation (U ''messages'')) messageIndex draft of
           Inl e \<Rightarrow> Inl e
         | Inr updatedMessages \<Rightarrow>
             Inr (h @ [JObj (define_prop updatedConversation (U ''messages'')
                               (JArr updatedMessages))],
                  js_assign (Prim JUndefined) prevConversations conversationIndex
                    (Obj (length h))))"

text \<open>The updater given to \<open>setSelectedConversation\<close>: for a selection that counts as
  true, another new object \<open>{ ...prevSelected, messages: updatedMessages }\<close>.\<close>

definition update_selected ::
  "heap \<Rightarrow> jsref \<Rightarrow> int \<Rightarrow> jstring \<Rightarrow> js_error + (heap \<times> jsref)" where
  "update_selected h prevSelected messageIndex draft =
     (if truthy prevSelected then
        (case edit_messages
                (case deref h prevSelected of
                   JObj ps \<Rightarrow> get_prop ps (U ''messages'') | _ \<Rightarrow> None)
                messageIndex draft of
           Inl e \<Rightarrow> Inl e
         | Inr updatedMessages \<Rightarrow>
             Inr (h @ [JObj (define_prop (own_props (deref h prevSelected)) (U ''messages'')
                               (JArr updatedMessages))],
                  Obj (length h)))
      else Inr (h, prevSelected))"

text \<open>\<open>handleMessageEdit\<close> of \<open>page.tsx\<close>. An exception in an updater leaves no new
  state.\<close>

definition handleMessageEdit :: "store \<Rightarrow> int \<Rightarrow> int \<Rightarrow> js_error + store" where
  "handleMessageEdit st conversationIndex messageIndex =
     (case update_conversations (heap st) (conversations st) conversationIndex messageIndex
             (editedContent st) of
        Inl e \<Rightarrow> Inl e
      | Inr (h1, updatedConversations) \<Rightarrow>
          (case update_selected h1 (selectedConversation st) messageIndex (editedContent st) of
             Inl e \<Rightarrow> Inl e
           | Inr (h2, selected) \<Rightarrow>
               Inr (st\<lparr>heap := h2, conversations := updatedConversations,
                       selectedConversation := selected, editingMessage := None,
                       editedContent := []\<rparr>)))"

text \<open>The check button of the message being edited:
  \<open>handleMessageEdit(conversations.indexOf(selectedConversation), messageIndex)\<close>.\<close>

definition commitEdit :: "store \<Rightarrow> int \<Rightarrow> js_error + store" where
  "commitEdit st messageIndex =
     handleMessageEdit st (indexOf (conversations st) (selectedConversation st)) messageIndex"

subsection \<open>The editor component \<open>JsonlEditor\<close>\<close>

text \<open>
  The second component updates the message in place:
  \<open>updatedConversations[conversationIndex].messages[messageIndex].content = editedContent\<close>.
  The module is in strict mode, so the assignment to a property of a primitive throws, as
  does every member access on \<open>undefined\<close> or \<open>null\<close>. \<open>assign_content\<close> is the assignment
  \<open>t.content = editedContent\<close>; on an array it adds a property that is no element, which
  leaves the elements as they are.
\<close>

definition assign_content :: "jsval \<Rightarrow> jstring \<Rightarrow> js_error + jsval" where
  "assign_content t draft =
     (case t of
        JObj fs \<Rightarrow> Inr (JObj (define_prop fs (U ''content'') (JStr draft)))
      | JArr xs \<Rightarrow> Inr (JArr xs)
      | _ \<Rightarrow> Inl TypeError)"

definition show_int :: "int \<Rightarrow> jstring" where
  "show_int i = (if i < 0 then [45] @ show_nat (nat (- i)) else show_nat (nat i))"

text \<open>\<open>m[messageIndex].content = editedContent\<close> for the value \<open>m\<close> of the property
  \<open>messages\<close> (\<open>None\<close> is \<open>undefined\<close>): the value with the member updated.\<close>

definition assign_member_content :: "jsval option \<Rightarrow> int \<Rightarrow> jstring \<Rightarrow> js_error + jsval" where
  "assign_member_content m messageIndex draft =
     (case m of
        Some (JArr xs) \<Rightarrow>
          (case js_nth xs messageIndex of
             None \<Rightarrow> Inl TypeError
           | Some t \<Rightarrow>
               (case assign_content t draft of
                  Inl e \<Rightarrow> Inl e
                | Inr t' \<Rightarrow> Inr (JArr (xs[nat messageIndex := t']))))
      | Some (JObj qs) \<Rightarrow>
          (case get_prop qs (show_int messageIndex) of
             None \<Rightarrow> Inl TypeError
           | Some t \<Rightarrow>
               (case assign_content t draft of
                  Inl e \<Rightarrow> Inl e
                | Inr t' \<Rightarrow> Inr (JObj (define_prop qs (show_int messageIndex) t'))))
      | _ \<Rightarrow> Inl TypeError)"

text \<open>The text sent to the server and written to the file: every conversation on a line
  of its own. \<open>join\<close> writes \<open>undefined\<close> as the empty string.\<close>

definition export_text :: "heap \<Rightarrow> jsref list \<Rightarrow> jstring" where
  "export_text h convs =
     join_nl (map (\<lambda>conv. case JSON_stringify (deref h conv) of None \<Rightarrow> [] | Some t \<Rightarrow> t) convs)"

text \<open>\<open>updateServerCode(newCode)\<close>: the request it sends. Its answer changes no state.\<close>

definition updateServerCode :: "jstring \<Rightarrow> effect" where
  "updateServerCode newCode =
     Post (U ''/api/update-jsonl'')
       (case JSON_stringify (JObj [(U ''code'', JStr newCode)]) of None \<Rightarrow> [] | Some b \<Rightarrow> b)"

definition JsonlEditor_handleMessageEdit ::
  "store \<Rightarrow> int \<Rightarrow> int \<Rightarrow> js_error + (store \<times> effect list)" where
  "JsonlEditor_handleMessageEdit st conversationIndex messageIndex =
     (case js_nth (conversations st) conversationIndex of
        Some (Obj a) \<Rightarrow>
          (case deref (heap st) (Obj a) of
             JObj ps \<Rightarrow>
               (case assign_member_content (get_prop ps (U ''messages'')) messageIndex
                       (editedContent st) of
                  Inl e \<Rightarrow> Inl e
                | Inr m' \<Rightarrow>
                    (let h' = (heap st)[a := JObj (define_prop ps (U ''messages'') m')] in
                     Inr (st\<lparr>heap := h', selectedConversation := Obj a,
                             editingMessage := None, editedContent := []\<rparr>,
                          [updateServerCode (export_text h' (conversations st))])))
           | _ \<Rightarrow> Inl TypeError)
      | _ \<Rightarrow> Inl TypeError)"

text \<open>\<open>handleFileUpload\<close> of \<open>JsonlEditor\<close> imports the text and sends it to the
  server as it is.\<close>

definition JsonlEditor_handleFileUpload :: "store \<Rightarrow> jstring \<Rightarrow> store \<times> effect list" where
  "JsonlEditor_handleFileUpload st text = (parseContent st text, [updateServerCode text])"

section \<open>Export\<close>

definition empty_export_toast :: effect where
  "empty_export_toast =
     Toast (U ''Error'')
       (U ''No data available to download. Please import or create some data first.'')"

text \<open>\<open>handleDownload\<close> of \<open>page.tsx\<close>: no setter is called, so the state it returns is
  the one it was given.\<close>

definition handleDownload :: "store \<Rightarrow> store \<times> effect list" where
  "handleDownload st =
     (if length (conversations st) = 0 then (st, [empty_export_toast])
      else (st, [DownloadFile (U ''conversations.jsonl'') (U ''application/json'')
                   (export_text (heap st) (conversations st))]))"

text \<open>\<open>handleDownload\<close> of \<open>JsonlEditor\<close> asks the server for the file. The answer of
  the server is an argument: no answer, or the \<open>ok\<close> flag of the response with the type
  and the text of its body.\<close>

datatype response = NoResponse | Response bool jstring jstring

definition JsonlEditor_handleDownload :: "store \<Rightarrow> response \<Rightarrow> store \<times> effect list" where
  "JsonlEditor_handleDownload st resp =
     (if length (conversations st) = 0 then (st, [empty_export_toast])
      else
        (case resp of
           Response True mime body \<Rightarrow>
             (st, [Get (U ''/api/get-jsonl''), DownloadFile (U ''conversations.jsonl'') mime body])
         | _ \<Rightarrow>
             (st, [Get (U ''/api/get-jsonl''),
                   Toast (U ''Error'') (U ''Failed to download JSONL. Please try again.'')])))"

section \<open>Notions used in the statements\<close>

text \<open>The conversation collection as values: what each reference of the collection
  refers to.\<close>

definition contents :: "store \<Rightarrow> jsval list" where
  "contents st = map (deref (heap st)) (conversations st)"

text \<open>A line is blank when nothing is left of it after trimming: the test
  \<open>line.trim() !== ''\<close> of \<open>parseContent\<close>.\<close>

definition non_blank :: "jstring \<Rightarrow> bool" where
  "non_blank l = (trim l \<noteq> [])"

text \<open>A reference is valid in a heap that holds its object.\<close>

definition valid_ref :: "heap \<Rightarrow> jsref \<Rightarrow> bool" where
  "valid_ref h r = (case r of Prim v \<Rightarrow> True | Obj a \<Rightarrow> a < length h)"

text \<open>What holds of the heap and the two arrays of \<open>parseContent\<close> after the lines
  \<open>ls\<close>, numbered from \<open>i\<close>, when the loop started on the heap \<open>h0\<close>.\<close>

definition import_inv ::
  "heap \<Rightarrow> nat \<Rightarrow> jstring list \<Rightarrow> heap \<times> jsref list \<times> ParsingError list \<Rightarrow> bool" where
  "import_inv h0 i ls acc =
     (case acc of (h, ps, es) \<Rightarrow>
        (\<exists>ext. h = h0 @ ext) \<and> list_all (valid_ref h) ps
        \<and> map (deref h) ps =
            map (\<lambda>l. the (JSON_parse l)) (filter (\<lambda>l. non_blank l \<and> JSON_parse l \<noteq> None) ls)
        \<and> es = map (\<lambda>(j, l). \<lparr>line = j + 1, content = l\<rparr>)
                 (filter (\<lambda>(j, l). non_blank l \<and> JSON_parse l = None) (enumerate i ls)))"

text \<open>The example of the specification: a conversation, a blank line, a line that is
  no JSON, a second conversation.\<close>

definition example_text :: jstring where
  \<open>example_text =
     U ''{"messages":[{"role":"user","content":"hi"}]}'' @ [10] @ [10] @ U ''not json'' @ [10]
     @ U ''{"messages":[{"role":"assistant","content":"hello"}]}''\<close>

definition example_store :: store where
  "example_store = parseContent initial_store example_text"

text \<open>The example after the first conversation was selected, the pencil of its first
  message was pressed and the draft was typed.\<close>

definition example_editing :: store where
  "example_editing =
     setEditedContent (setEditingMessage (handleConversationSelect example_store 0) (Some 0))
       (U ''hi there'')"

definition is_download :: "effect \<Rightarrow> bool" where
  "is_download e = (case e of DownloadFile name mime body \<Rightarrow> True | _ \<Rightarrow> False)"

text \<open>The lower-cased query occurs in the lower-cased text.\<close>

definition contains_lowered :: "(jstring \<Rightarrow> jstring) \<Rightarrow> jstring \<Rightarrow> jstring \<Rightarrow> bool" where
  "contains_lowered lower text q = sublist (lower q) (lower text)"

text \<open>The label of the conversation at a position of the collection, the positions
  counted from zero: \<open>Conversation 1\<close> for the first.\<close>

definition position_label :: "nat \<Rightarrow> jstring" where
  "position_label i = U ''Conversation '' @ show_nat (Suc i)"

text \<open>Two code units are the same letter up to case, for the letters \<open>A\<close> to \<open>Z\<close>; a piece
  of the text equals the query letter by letter up to case.\<close>

definition same_letter :: "nat \<Rightarrow> nat \<Rightarrow> bool" where
  "same_letter a b =
     (a = b \<or> (65 \<le> a \<and> a \<le> 90 \<and> b = a + 32) \<or> (65 \<le> b \<and> b \<le> 90 \<and> a = b + 32))"

definition contains_ci :: "jstring \<Rightarrow> jstring \<Rightarrow> bool" where
  "contains_ci text q =
     (\<exists>pre mid post. text = pre @ mid @ post \<and> list_all2 same_letter mid q)"

text \<open>A text of ASCII characters; a conversion that on such texts makes the letters
  \<open>A\<close> to \<open>Z\<close> small and changes nothing else, as \<open>toLowerCase\<close> does.\<close>

definition ascii :: "jstring \<Rightarrow> bool" where
  "ascii s = list_all (\<lambda>c. c < 128) s"

definition lowers_ascii :: "(jstring \<Rightarrow> jstring) \<Rightarrow> bool" where
  "lowers_ascii lower =
     (\<forall>s. ascii s \<longrightarrow> lower s = map (\<lambda>c. if 65 \<le> c \<and> c \<le> 90 then c + 32 else c) s)"

text \<open>The serialized text of a conversation.\<close>

definition conv_text :: "heap \<Rightarrow> jsref \<Rightarrow> jstring" where
  "conv_text h c = (case JSON_stringify (deref h c) of None \<Rightarrow> [] | Some t \<Rightarrow> t)"

text \<open>The criterion for the conversation at a position of the collection: the
  lower-cased query occurs in its lower-cased serialized text or in its lower-cased
  label.\<close>

definition query_matches ::
  "(jstring \<Rightarrow> jstring) \<Rightarrow> heap \<Rightarrow> jstring \<Rightarrow> nat \<times> jsref \<Rightarrow> bool" where
  "query_matches lower h q ic =
     (contains_lowered lower (conv_text h (snd ic)) q
      \<or> contains_lowered lower (position_label (fst ic)) q)"

text \<open>A conversation whose content is the two Greek capitals alpha and sigma, and the
  query that is the capital sigma.\<close>

definition sigma_text :: jstring where
  \<open>sigma_text = U ''{"messages":[{"role":"user","content":"'' @ [913, 931] @ U ''"}]}''\<close>

definition sigma_store :: store where
  "sigma_store = handleSearchChange (parseContent initial_store sigma_text) [931]"

text \<open>The selection is valid when nothing is selected (the selection does not count as
  true) or the selected value is an element of the collection, by \<open>===\<close>: then
  \<open>conversations.indexOf(selectedConversation)\<close> is a position.\<close>

definition selection_valid :: "store \<Rightarrow> bool" where
  "selection_valid st =
     (\<not> truthy (selectedConversation st) \<or> selectedConversation st \<in> set (conversations st))"

text \<open>The example after the check button of \<open>page.tsx\<close> has committed the edit.\<close>

definition example_edited :: store where
  "example_edited =
     (case commitEdit example_editing 0 of Inr st \<Rightarrow> st | Inl e \<Rightarrow> example_editing)"

text \<open>The typed view of a conversation value: its message list, and a field of a
  message (or of the conversation), as \<open>conv.messages\<close>, \<open>message.role\<close> and
  \<open>message.content\<close> read them.\<close>

definition messages_of :: "jsval \<Rightarrow> jsval list" where
  "messages_of v =
     (case v of
        JObj ps \<Rightarrow> (case get_prop ps (U ''messages'') of Some (JArr ms) \<Rightarrow> ms | _ \<Rightarrow> [])
      | _ \<Rightarrow> [])"

definition field :: "jsval \<Rightarrow> jstring \<Rightarrow> jsval option" where
  "field v k = (case v of JObj fs \<Rightarrow> get_prop fs k | _ \<Rightarrow> None)"

text \<open>Edit isolation between the collection before and after an edit of message \<open>m\<close>
  of conversation \<open>c\<close>: the same number of conversations; every other conversation is the
  same value; the edited conversation has every field but \<open>messages\<close> unchanged and as many
  messages as before; every other message of it is the same value; the edited message has
  every field but \<open>content\<close> unchanged (its \<open>role\<close> among them), and its \<open>content\<close> is the
  draft.\<close>

definition edit_isolated :: "jsval list \<Rightarrow> jsval list \<Rightarrow> nat \<Rightarrow> nat \<Rightarrow> jstring \<Rightarrow> bool" where
  "edit_isolated old new c m draft =
     (length new = length old
      \<and> (\<forall>i < length old. i \<noteq> c \<longrightarrow> new ! i = old ! i)
      \<and> (\<forall>k. k \<noteq> U ''messages'' \<longrightarrow> field (new ! c) k = field (old ! c) k)
      \<and> length (messages_of (new ! c)) = length (messages_of (old ! c))
      \<and> (\<forall>j < length (messages_of (old ! c)). j \<noteq> m \<longrightarrow>
            messages_of (new ! c) ! j = messages_of (old ! c) ! j)
      \<and> (\<forall>k. k \<noteq> U ''content'' \<longrightarrow>
            field (messages_of (new ! c) ! m) k = field (messages_of (old ! c) ! m) k)
      \<and> field (messages_of (new ! c) ! m) (U ''content'') = Some (JStr draft))"

text \<open>The conversation object after the edit, from its properties \<open>ps\<close>, its messages
  \<open>ms\<close> and the fields \<open>fs\<close> of the message edited.\<close>

definition edited_conversation ::
  "(jstring \<times> jsval) list \<Rightarrow> jsval list \<Rightarrow> (jstring \<times> jsval) list \<Rightarrow> nat \<Rightarrow> jstring \<Rightarrow> jsval" where
  "edited_conversation ps ms fs m draft =
     JObj (define_prop ps (U ''messages'')
             (JArr (ms[m := JObj (define_prop fs (U ''content'') (JStr draft))])))"

text \<open>A text after which a number literal ends: it is empty, or its first character is
  no digit, no decimal point and no exponent mark.\<close>

definition num_end :: "jstring \<Rightarrow> bool" where
  "num_end rest = (rest = [] \<or> (\<not> is_digit (hd rest) \<and> hd rest \<noteq> 46 \<and> hd rest \<noteq> 101 \<and> hd rest \<noteq> 69))"

text \<open>The mantissa and the exponent of a double that is not zero.\<close>

definition is_double :: "nat \<Rightarrow> int \<Rightarrow> bool" where
  "is_double m e =
     (odd m \<and> bit_length m \<le> 53 \<and> - 1074 \<le> e \<and> e + int (bit_length m) \<le> 1024)"

text \<open>The number read from the text \<open>Number::toString\<close> writes for a finite number: the
  text of a zero is \<open>0\<close>.\<close>

definition reread :: "bool \<Rightarrow> nat \<Rightarrow> int \<Rightarrow> number" where
  "reread neg m e =
     (if m = 0 then NFinite False 0 0
      else
        (case shortest_decimal neg m e of
           (s, t) \<Rightarrow> (case strip10 s t of (s', t') \<Rightarrow> make_number neg s' t')))"

text \<open>
  What \<open>JSON.parse(JSON.stringify(v))\<close> gives for a value that is not \<open>undefined\<close>: a number
  that is not finite becomes \<open>null\<close>, as does \<open>undefined\<close> in an array; a property whose
  value is \<open>undefined\<close> is gone; a finite number is read again from its digits; an object
  is built again from its properties.
\<close>

fun reparsed :: "jsval \<Rightarrow> jsval"
  and reparsed_elements :: "jsval list \<Rightarrow> jsval list"
  and reparsed_members :: "(jstring \<times> jsval) list \<Rightarrow> (jstring \<times> jsval) list"
where
  "reparsed JUndefined = JUndefined"
| "reparsed JNull = JNull"
| "reparsed (JBool b) = JBool b"
| "reparsed (JNum x) =
     (case x of NInfinity neg \<Rightarrow> JNull | NFinite neg m e \<Rightarrow> JNum (reread neg m e))"
| "reparsed (JStr s) = JStr s"
| "reparsed (JArr vs) = JArr (reparsed_elements vs)"
| "reparsed (JObj ps) = JObj (build_object (reparsed_members ps))"
| "reparsed_elements [] = []"
| "reparsed_elements (v # vs) =
     (if v = JUndefined then JNull else reparsed v) # reparsed_elements vs"
| "reparsed_members [] = []"
| "reparsed_members ((k, v) # ps) =
     (if v = JUndefined then reparsed_members ps else (k, reparsed v) # reparsed_members ps)"

text \<open>The number of nested calls the reader makes on the serialized text of a
  value.\<close>

fun need :: "jsval \<Rightarrow> nat"
  and need_elements :: "jsval list \<Rightarrow> nat"
  and need_members :: "(jstring \<times> jsval) list \<Rightarrow> nat"
where
  "need JUndefined = 1"
| "need JNull = 1"
| "need (JBool b) = 1"
| "need (JNum x) = 1"
| "need (JStr s) = 1"
| "need (JArr vs) = Suc (need_elements vs)"
| "need (JObj ps) = Suc (need_members ps)"
| "need_elements [] = 0"
| "need_elements (v # vs) = Suc (max (need v) (need_elements vs))"
| "need_members [] = 0"
| "need_members ((k, v) # ps) =
     (if v = JUndefined then need_members ps else Suc (max (need v) (need_members ps)))"

text \<open>The characters a serialized value starts with.\<close>

definition value_start :: "nat \<Rightarrow> bool" where
  "value_start c =
     (c = 110 \<or> c = 116 \<or> c = 102 \<or> c = 34 \<or> c = 91 \<or> c = 123 \<or> c = 45 \<or> is_digit c)"

text \<open>The keys of an object are in enumeration order when no key stands after a key it
  comes before; with that and no key twice, the property list is what \<open>build_object\<close>
  makes of it.\<close>

definition ordered_keys :: "jstring list \<Rightarrow> bool" where
  "ordered_keys ks = sorted_wrt (\<lambda>k k'. \<not> key_before k' k) ks"

definition well_ordered :: "(jstring \<times> jsval) list \<Rightarrow> bool" where
  "well_ordered ps = (distinct (map fst ps) \<and> ordered_keys (map fst ps))"

text \<open>The values \<open>JSON.parse\<close> produces: no \<open>undefined\<close>, every finite number a double
  or a zero, every object with its properties in enumeration order.\<close>

fun canonical :: "jsval \<Rightarrow> bool"
  and canonical_elements :: "jsval list \<Rightarrow> bool"
  and canonical_members :: "(jstring \<times> jsval) list \<Rightarrow> bool"
where
  "canonical JUndefined = False"
| "canonical JNull = True"
| "canonical (JBool b) = True"
| "canonical (JNum x) =
     (case x of
        NInfinity neg \<Rightarrow> True
      | NFinite neg m e \<Rightarrow> if m = 0 then e = 0 else is_double m e)"
| "canonical (JStr s) = True"
| "canonical (JArr vs) = canonical_elements vs"
| "canonical (JObj ps) = (build_object ps = ps \<and> canonical_members ps)"
| "canonical_elements [] = True"
| "canonical_elements (v # vs) = (canonical v \<and> canonical_elements vs)"
| "canonical_members [] = True"
| "canonical_members ((k, v) # ps) = (canonical v \<and> canonical_members ps)"

text \<open>The normalization of the numbers that JSON cannot write: a negative zero
  becomes \<open>0\<close>, an infinity becomes \<open>null\<close>.\<close>

definition normalized_number :: "number \<Rightarrow> jsval" where
  "normalized_number x =
     (case x of
        NInfinity neg \<Rightarrow> JNull
      | NFinite neg m e \<Rightarrow> if m = 0 then JNum (NFinite False 0 0) else JNum x)"

fun normalized :: "jsval \<Rightarrow> jsval"
  and normalized_elements :: "jsval list \<Rightarrow> jsval list"
  and normalized_members :: "(jstring \<times> jsval) list \<Rightarrow> (jstring \<times> jsval) list"
where
  "normalized (JNum x) = normalized_number x"
| "normalized (JArr vs) = JArr (normalized_elements vs)"
| "normalized (JObj ps) = JObj (normalized_members ps)"
| "normalized v = v"
| "normalized_elements [] = []"
| "normalized_elements (v # vs) = normalized v # normalized_elements vs"
| "normalized_members [] = []"
| "normalized_members ((k, v) # ps) = (k, normalized v) # normalized_members ps"

text \<open>A value that holds no infinity and no negative zero.\<close>

definition plain_number :: "number \<Rightarrow> bool" where
  "plain_number x =
     (case x of
        NInfinity neg \<Rightarrow> False
      | NFinite neg m e \<Rightarrow> if m = 0 then \<not> neg \<and> e = 0 else True)"

fun plain_numbers :: "jsval \<Rightarrow> bool"
  and plain_elements :: "jsval list \<Rightarrow> bool"
  and plain_members :: "(jstring \<times> jsval) list \<Rightarrow> bool"
where
  "plain_numbers (JNum x) = plain_number x"
| "plain_numbers (JArr vs) = plain_elements vs"
| "plain_numbers (JObj ps) = plain_members ps"
| "plain_numbers v = True"
| "plain_elements [] = True"
| "plain_elements (v # vs) = (plain_numbers v \<and> plain_elements vs)"
| "plain_members [] = True"
| "plain_members ((k, v) # ps) = (plain_numbers v \<and> plain_members ps)"

text \<open>A conversation line with two numbers: one that is a double as written, and one
  that is rounded to a double.\<close>

definition number_text :: jstring where
  \<open>number_text = U ''{"messages":[],"weight":2.5,"id":9007199254740993}''\<close>

definition number_store :: store where
  "number_store = parseContent initial_store number_text"

text \<open>A conversation line with a negative zero.\<close>

definition negative_zero_text :: jstring where
  \<open>negative_zero_text = U ''{"messages":[],"score":-0}''\<close>

definition negative_zero_store :: store where
  "negative_zero_store = parseContent initial_store negative_zero_text"

text \<open>A conversation line with a number literal beyond the range of a double.\<close>

definition overflow_text :: jstring where
  \<open>overflow_text = U ''{"messages":[],"score":1e999}''\<close>

definition overflow_store :: store where
  "overflow_store = parseContent initial_store overflow_text"

text \<open>A reader gives what it gives with \<open>n\<close> nested calls allowed with every allowance
  that is not below the number of characters it has read; and it has read at least one.\<close>

definition enough :: "(nat \<Rightarrow> jstring \<Rightarrow> ('a \<times> jstring) option) \<Rightarrow> nat \<Rightarrow> bool" where
  "enough p n =
     (\<forall>s x r. p n s = Some (x, r) \<longrightarrow>
        length r < length s \<and> (\<forall>m. length s - length r \<le> m \<longrightarrow> p m s = Some (x, r)))"

text \<open>No object is held at two positions of the collection.\<close>

definition no_alias :: "jsref list \<Rightarrow> bool" where
  "no_alias convs =
     (\<forall>i < length convs. \<forall>j < length convs. i \<noteq> j \<longrightarrow>
        (\<forall>a. convs ! i = Obj a \<longrightarrow> convs ! j \<noteq> Obj a))"

section \<open>The bound on the nested calls of the reader\<close>

lemma skip_ws_length: "length (skip_ws s) \<le> length s"
  by (simp add: skip_ws_def length_dropWhile_le)

lemma skip_ws_Cons_length: "skip_ws s = c # cs \<Longrightarrow> length cs < length s"
  using skip_ws_length[of s] by simp

lemma parse_chars_shorter: "parse_chars s = Some (str, r) \<Longrightarrow> length r < length s"
proof (induction s arbitrary: str r rule: parse_chars.induct)
  case 1
  then show ?case by (simp add: parse_chars.simps)
next
  case (2 c cs)
  show ?case
  proof (cases "c = 34")
    case True
    with 2(4) show ?thesis by (simp add: parse_chars.simps)
  next
    case n34: False
    show ?thesis
    proof (cases "c = 92")
      case True
      with 2(4) obtain e r0 where cs: "cs = e # r0"
        by (cases cs) (simp_all add: parse_chars.simps)
      show ?thesis
      proof (cases "e = 117")
        case u: True
        with 2(4) True cs obtain u0 where h: "hex4 r0 = Some u0"
          by (cases "hex4 r0") (simp_all add: parse_chars.simps)
        with 2(4) True cs u obtain s0 where p: "parse_chars (drop 4 r0) = Some (s0, r)"
          by (cases "parse_chars (drop 4 r0)") (auto simp: parse_chars.simps)
        from 2(1)[OF n34 True cs u h p] cs show ?thesis by simp
      next
        case nu: False
        with 2(4) True cs obtain u0 where h: "unescape e = Some u0"
          by (cases "unescape e") (simp_all add: parse_chars.simps)
        with 2(4) True cs nu obtain s0 where p: "parse_chars r0 = Some (s0, r)"
          by (cases "parse_chars r0") (auto simp: parse_chars.simps)
        from 2(2)[OF n34 True cs nu h p] cs show ?thesis by simp
      qed
    next
      case n92: False
      with 2(4) n34 have c32: "\<not> c < 32" by (auto simp: parse_chars.simps split: if_splits)
      with 2(4) n34 n92 obtain s0 where p: "parse_chars cs = Some (s0, r)"
        by (cases "parse_chars cs") (auto simp: parse_chars.simps)
      from 2(3)[OF n34 n92 c32 p] show ?thesis by simp
    qed
  qed
qed

lemma parse_int_shorter: "parse_int s = Some (ip, r) \<Longrightarrow> length r < length s"
proof -
  assume p: "parse_int s = Some (ip, r)"
  then obtain c cs where s: "s = c # cs" by (cases s) (simp_all add: parse_int_def)
  show ?thesis
  proof (cases "c = 48")
    case True
    with p s show ?thesis by (simp add: parse_int_def)
  next
    case False
    with p s have d: "is_digit c" and r: "r = dropWhile is_digit s"
      by (auto simp: parse_int_def split: if_splits)
    from d s r have "r = dropWhile is_digit cs" by simp
    then have "length r \<le> length cs" by (simp add: length_dropWhile_le)
    with s show ?thesis by simp
  qed
qed

lemma parse_frac_shorter: "parse_frac s = Some (fp, r) \<Longrightarrow> length r \<le> length s"
  using length_dropWhile_le[of is_digit "tl s"]
  by (cases s) (auto simp: parse_frac_def split: if_splits)

lemma parse_exp_digits_shorter: "parse_exp_digits neg s = Some (e, r) \<Longrightarrow> length r \<le> length s"
  using length_dropWhile_le[of is_digit s]
  by (auto simp: parse_exp_digits_def split: if_splits)

lemma parse_exp_shorter: "parse_exp s = Some (e, r) \<Longrightarrow> length r \<le> length s"
proof -
  assume p: "parse_exp s = Some (e, r)"
  show ?thesis
  proof (cases s)
    case Nil
    with p show ?thesis by (simp add: parse_exp_def)
  next
    case (Cons c cs)
    show ?thesis
    proof (cases "c = 101 \<or> c = 69")
      case False
      with p Cons show ?thesis by (auto simp: parse_exp_def)
    next
      case True
      with p Cons obtain d ds where cs: "cs = d # ds"
        by (cases cs) (auto simp: parse_exp_def)
      from p Cons True cs
      have "parse_exp_digits False ds = Some (e, r) \<or> parse_exp_digits True ds = Some (e, r)
          \<or> parse_exp_digits False cs = Some (e, r)"
        by (auto simp: parse_exp_def split: if_splits)
      then have "length r \<le> length ds \<or> length r \<le> length cs"
        using parse_exp_digits_shorter by blast
      with Cons cs show ?thesis by auto
    qed
  qed
qed

lemma parse_unsigned_shorter: "parse_unsigned neg s = Some (x, r) \<Longrightarrow> length r < length s"
proof -
  assume p: "parse_unsigned neg s = Some (x, r)"
  then obtain ip s1 where 1: "parse_int s = Some (ip, s1)"
    by (cases "parse_int s") (auto simp: parse_unsigned_def)
  with p obtain fp s2 where 2: "parse_frac s1 = Some (fp, s2)"
    by (cases "parse_frac s1") (auto simp: parse_unsigned_def)
  with p 1 obtain ex where 3: "parse_exp s2 = Some (ex, r)"
    by (cases "parse_exp s2") (auto simp: parse_unsigned_def)
  from parse_int_shorter[OF 1] parse_frac_shorter[OF 2] parse_exp_shorter[OF 3]
  show ?thesis by simp
qed

lemma parse_number_shorter: "parse_number s = Some (x, r) \<Longrightarrow> length r < length s"
proof -
  assume p: "parse_number s = Some (x, r)"
  then obtain c cs where s: "s = c # cs" by (cases s) (simp_all add: parse_number_def)
  show ?thesis
  proof (cases "c = 45")
    case True
    with p s have "parse_unsigned True cs = Some (x, r)" by (simp add: parse_number_def)
    from parse_unsigned_shorter[OF this] s show ?thesis by simp
  next
    case False
    with p s have "parse_unsigned False s = Some (x, r)" by (simp add: parse_number_def)
    from parse_unsigned_shorter[OF this] show ?thesis .
  qed
qed

lemma enoughD:
  assumes "enough p n" and "p n s = Some (x, r)"
  shows "length r < length s" and "length s - length r \<le> m \<Longrightarrow> p m s = Some (x, r)"
  using assms unfolding enough_def by blast+

lemma parse_value_enough:
  assumes E: "enough parse_elements n" and M: "enough parse_members n"
  shows "enough parse_value (Suc n)"
  unfolding enough_def
proof (intro allI impI)
  fix s v r
  assume p: "parse_value (Suc n) s = Some (v, r)"
  then obtain c cs where sk: "skip_ws s = c # cs" by (cases "skip_ws s") simp_all
  have l1: "length cs < length s" using sk by (rule skip_ws_Cons_length)
  have flat: "length r < length s \<and> (\<forall>m. length s - length r \<le> m \<longrightarrow> parse_value m s = Some (v, r))"
    if lr: "length r < length s" and one: "\<And>k. parse_value (Suc k) s = Some (v, r)"
  proof (intro conjI allI impI)
    show "length r < length s" by (rule lr)
    fix m assume "length s - length r \<le> m"
    with lr obtain k where "m = Suc k" by (cases m) auto
    with one show "parse_value m s = Some (v, r)" by simp
  qed
  show "length r < length s \<and> (\<forall>m. length s - length r \<le> m \<longrightarrow> parse_value m s = Some (v, r))"
  proof (cases "c = 123")
    case True
    with p sk obtain d ds where sk2: "skip_ws cs = d # ds" by (cases "skip_ws cs") simp_all
    have l2: "length (d # ds) \<le> length cs" using skip_ws_length[of cs] sk2 by simp
    show ?thesis
    proof (cases "d = 125")
      case e: True
      with p sk True sk2 have v: "v = JObj []" "r = ds" by simp_all
      show ?thesis
      proof (rule flat)
        show "length r < length s" using v l1 l2 by simp
        show "parse_value (Suc k) s = Some (v, r)" for k using sk True sk2 e v by simp
      qed
    next
      case ne: False
      with p sk True sk2 obtain kvs where
        pm: "parse_members n (d # ds) = Some (kvs, r)" and v: "v = JObj (build_object kvs)"
        by (cases "parse_members n (d # ds)") auto
      from enoughD(1)[OF M pm] have lr: "length r < length (d # ds)" .
      show ?thesis
      proof (intro conjI allI impI)
        show "length r < length s" using lr l1 l2 by simp
        fix m assume m: "length s - length r \<le> m"
        with lr l1 l2 obtain k where k: "m = Suc k" by (cases m) auto
        with m l1 l2 have "length (d # ds) - length r \<le> k" by simp
        from enoughD(2)[OF M pm this] show "parse_value m s = Some (v, r)"
          using k sk True sk2 ne v by simp
      qed
    qed
  next
    case n123: False
    show ?thesis
    proof (cases "c = 91")
      case True
      with p sk n123 obtain d ds where sk2: "skip_ws cs = d # ds"
        by (cases "skip_ws cs") simp_all
      have l2: "length (d # ds) \<le> length cs" using skip_ws_length[of cs] sk2 by simp
      show ?thesis
      proof (cases "d = 93")
        case e: True
        with p sk True sk2 have v: "v = JArr []" "r = ds" by simp_all
        show ?thesis
        proof (rule flat)
          show "length r < length s" using v l1 l2 by simp
          show "parse_value (Suc k) s = Some (v, r)" for k using sk True sk2 e v by simp
        qed
      next
        case ne: False
        with p sk True sk2 obtain vs where
          pe: "parse_elements n (d # ds) = Some (vs, r)" and v: "v = JArr vs"
          by (cases "parse_elements n (d # ds)") auto
        from enoughD(1)[OF E pe] have lr: "length r < length (d # ds)" .
        show ?thesis
        proof (intro conjI allI impI)
          show "length r < length s" using lr l1 l2 by simp
          fix m assume m: "length s - length r \<le> m"
          with lr l1 l2 obtain k where k: "m = Suc k" by (cases m) auto
          with m l1 l2 have "length (d # ds) - length r \<le> k" by simp
          from enoughD(2)[OF E pe this] show "parse_value m s = Some (v, r)"
            using k sk True sk2 ne v by simp
        qed
      qed
    next
      case n91: False
      show ?thesis
      proof (cases "c = 34")
        case True
        with p sk obtain str where pc: "parse_chars cs = Some (str, r)" and v: "v = JStr str"
          by (cases "parse_chars cs") auto
        show ?thesis
        proof (rule flat)
          show "length r < length s" using parse_chars_shorter[OF pc] l1 by simp
          show "parse_value (Suc k) s = Some (v, r)" for k using sk True pc v by simp
        qed
      next
        case n34: False
        show ?thesis
        proof (cases "c = 45 \<or> is_digit c")
          case True
          with p sk n123 n91 n34 obtain x where
            pn: "parse_number (c # cs) = Some (x, r)" and v: "v = JNum x"
            by (cases "parse_number (c # cs)") auto
          show ?thesis
          proof (rule flat)
            show "length r < length s"
              using parse_number_shorter[OF pn] skip_ws_length[of s] sk by simp
            show "parse_value (Suc k) s = Some (v, r)" for k
              using sk n123 n91 n34 True pn v by simp
          qed
        next
          case nnum: False
          have same: "parse_value (Suc k) s = parse_value (Suc n) s" for k
            using sk n123 n91 n34 nnum by simp
          from p sk n123 n91 n34 nnum have "r = drop 4 (c # cs) \<or> r = drop 5 (c # cs)"
            by (auto split: if_splits)
          then have "length r < length (c # cs)" by auto
          with skip_ws_length[of s] sk have lr: "length r < length s" by simp
          show ?thesis
          proof (rule flat)
            show "length r < length s" by (rule lr)
            show "parse_value (Suc k) s = Some (v, r)" for k using same p by simp
          qed
        qed
      qed
    qed
  qed
qed

lemma parse_elements_enough:
  assumes V: "enough parse_value n" and E: "enough parse_elements n"
  shows "enough parse_elements (Suc n)"
  unfolding enough_def
proof (intro allI impI)
  fix s vs r
  assume p: "parse_elements (Suc n) s = Some (vs, r)"
  then obtain v r1 where pv: "parse_value n s = Some (v, r1)"
    by (cases "parse_value n s") auto
  with p obtain c cs where sk: "skip_ws r1 = c # cs" by (cases "skip_ws r1") simp_all
  have l1: "length r1 < length s" using enoughD(1)[OF V pv] .
  have l2: "length cs < length r1" using sk by (rule skip_ws_Cons_length)
  show "length r < length s \<and> (\<forall>m. length s - length r \<le> m \<longrightarrow> parse_elements m s = Some (vs, r))"
  proof (cases "c = 44")
    case True
    with p pv sk obtain vs' where pe: "parse_elements n cs = Some (vs', r)" and vs: "vs = v # vs'"
      by (cases "parse_elements n cs") auto
    have l3: "length r < length cs" using enoughD(1)[OF E pe] .
    show ?thesis
    proof (intro conjI allI impI)
      show "length r < length s" using l1 l2 l3 by simp
      fix m assume m: "length s - length r \<le> m"
      with l1 l2 l3 obtain k where k: "m = Suc k" by (cases m) auto
      with m l1 l2 l3 have "length s - length r1 \<le> k" and "length cs - length r \<le> k" by simp_all
      from enoughD(2)[OF V pv this(1)] enoughD(2)[OF E pe this(2)]
      show "parse_elements m s = Some (vs, r)" using k sk True vs by simp
    qed
  next
    case False
    with p pv sk have c: "c = 93" and vs: "vs = [v]" "r = cs" by (auto split: if_splits)
    show ?thesis
    proof (intro conjI allI impI)
      show "length r < length s" using l1 l2 vs by simp
      fix m assume m: "length s - length r \<le> m"
      with l1 l2 vs obtain k where k: "m = Suc k" by (cases m) auto
      with m l1 l2 vs have "length s - length r1 \<le> k" by simp
      from enoughD(2)[OF V pv this]
      show "parse_elements m s = Some (vs, r)" using k sk c vs by simp
    qed
  qed
qed

lemma parse_members_enough:
  assumes V: "enough parse_value n" and M: "enough parse_members n"
  shows "enough parse_members (Suc n)"
  unfolding enough_def
proof (intro allI impI)
  fix s kvs r
  assume p: "parse_members (Suc n) s = Some (kvs, r)"
  then obtain c cs where sk: "skip_ws s = c # cs" by (cases "skip_ws s") simp_all
  with p have c: "c = 34" by (auto split: if_splits)
  with p sk obtain k r0 where pc: "parse_chars cs = Some (k, r0)"
    by (cases "parse_chars cs") auto
  with p sk c obtain d ds where sk2: "skip_ws r0 = d # ds" by (cases "skip_ws r0") simp_all
  with p sk c pc have d: "d = 58" by (auto split: if_splits)
  with p sk c pc sk2 obtain v r1 where pv: "parse_value n ds = Some (v, r1)"
    by (cases "parse_value n ds") auto
  with p sk c pc sk2 d obtain e es where sk3: "skip_ws r1 = e # es"
    by (cases "skip_ws r1") simp_all
  have l1: "length cs < length s" using sk by (rule skip_ws_Cons_length)
  have l2: "length r0 < length cs" using pc by (rule parse_chars_shorter)
  have l3: "length ds < length r0" using sk2 by (rule skip_ws_Cons_length)
  have l4: "length r1 < length ds" using enoughD(1)[OF V pv] .
  have l5: "length es < length r1" using sk3 by (rule skip_ws_Cons_length)
  show "length r < length s \<and> (\<forall>m. length s - length r \<le> m \<longrightarrow> parse_members m s = Some (kvs, r))"
  proof (cases "e = 44")
    case True
    with p sk c pc sk2 d pv sk3 obtain kvs' where
      pm: "parse_members n es = Some (kvs', r)" and kvs: "kvs = (k, v) # kvs'"
      by (cases "parse_members n es") auto
    have l6: "length r < length es" using enoughD(1)[OF M pm] .
    show ?thesis
    proof (intro conjI allI impI)
      show "length r < length s" using l1 l2 l3 l4 l5 l6 by simp
      fix m assume m: "length s - length r \<le> m"
      with l1 l2 l3 l4 l5 l6 obtain j where j: "m = Suc j" by (cases m) auto
      with m l1 l2 l3 l4 l5 l6 have "length ds - length r1 \<le> j" and "length es - length r \<le> j"
        by simp_all
      from enoughD(2)[OF V pv this(1)] enoughD(2)[OF M pm this(2)]
      show "parse_members m s = Some (kvs, r)" using j sk c pc sk2 d sk3 True kvs by simp
    qed
  next
    case False
    with p sk c pc sk2 d pv sk3 have e: "e = 125" and kvs: "kvs = [(k, v)]" "r = es"
      by (auto split: if_splits)
    show ?thesis
    proof (intro conjI allI impI)
      show "length r < length s" using l1 l2 l3 l4 l5 kvs by simp
      fix m assume m: "length s - length r \<le> m"
      with l1 l2 l3 l4 l5 kvs obtain j where j: "m = Suc j" by (cases m) auto
      with m l1 l2 l3 l4 l5 kvs have "length ds - length r1 \<le> j" by simp
      from enoughD(2)[OF V pv this]
      show "parse_members m s = Some (kvs, r)" using j sk c pc sk2 d sk3 e kvs by simp
    qed
  qed
qed

lemma parse_enough:
  "enough parse_value n \<and> enough parse_elements n \<and> enough parse_members n"
proof (induction n)
  case 0
  show ?case by (simp add: enough_def)
next
  case (Suc n)
  then show ?case
    using parse_value_enough parse_elements_enough parse_members_enough by blast
qed

text \<open>What the reader gives with any bound it gives with the bound \<open>JSON_parse\<close>
  starts it with: \<open>JSON_parse\<close> rejects a text only where the reader without a bound
  would.\<close>

lemma parse_value_fuel:
  assumes "parse_value n s = Some (v, r)"
  shows "parse_value (Suc (length s)) s = Some (v, r)"
proof -
  have "enough parse_value n" using parse_enough by blast
  from enoughD(2)[OF this assms, of "Suc (length s)"] show ?thesis by simp
qed

lemma JSON_parse_fuel:
  assumes "parse_value n s = Some (v, r)" and "skip_ws r = []"
  shows "JSON_parse s = Some v"
  using parse_value_fuel[OF assms(1)] assms(2) by (simp add: JSON_parse_def)

lemma JSON_parse_rejects:
  assumes "JSON_parse s = None"
  shows "parse_value n s = None \<or> (\<exists>v r. parse_value n s = Some (v, r) \<and> skip_ws r \<noteq> [])"
proof (cases "parse_value n s")
  case None
  then show ?thesis by simp
next
  case (Some x)
  obtain v r where x: "x = (v, r)" by (cases x)
  from parse_value_fuel[of n s v r] Some x assms show ?thesis
    by (auto simp: JSON_parse_def split: if_splits)
qed

section \<open>Import: the lines and the two lists\<close>

lemma deref_append: "valid_ref h r \<Longrightarrow> deref (h @ ext) r = deref h r"
  by (cases r) (auto simp: valid_ref_def deref_def nth_append)

lemma valid_ref_append: "valid_ref h r \<Longrightarrow> valid_ref (h @ ext) r"
  by (cases r) (auto simp: valid_ref_def)

lemma new_ref_props:
  assumes "new_ref h v = (r, h')"
  shows "\<exists>ext. h' = h @ ext" and "valid_ref h' r" and "deref h' r = v"
  using assms by (auto simp: new_ref_def valid_ref_def deref_def split: if_splits)

lemma enumerate_snoc: "enumerate i (ls @ [l]) = enumerate i ls @ [(i + length ls, l)]"
  by (induction ls arbitrary: i) auto

lemma parse_line_inv:
  assumes "import_inv h0 i ls acc"
  shows "import_inv h0 i (ls @ [l]) (parse_line acc (i + length ls, l))"
proof -
  obtain h ps es where acc: "acc = (h, ps, es)" by (cases acc) auto
  show ?thesis
  proof (cases "non_blank l")
    case False
    with assms acc show ?thesis
      by (simp add: import_inv_def parse_line_def enumerate_snoc non_blank_def)
  next
    case nb: True
    show ?thesis
    proof (cases "JSON_parse l")
      case None
      with assms acc nb show ?thesis
        by (simp add: import_inv_def parse_line_def enumerate_snoc non_blank_def)
    next
      case (Some v)
      obtain r h' where nr: "new_ref h v = (r, h')" by (cases "new_ref h v") auto
      from new_ref_props[OF nr] obtain ext where ext: "h' = h @ ext"
        and vr: "valid_ref h' r" and dr: "deref h' r = v" by auto
      from assms acc have pre: "\<exists>e. h = h0 @ e" and va: "list_all (valid_ref h) ps"
        and co: "map (deref h) ps =
            map (\<lambda>l. the (JSON_parse l)) (filter (\<lambda>l. non_blank l \<and> JSON_parse l \<noteq> None) ls)"
        and er: "es = map (\<lambda>(j, l). \<lparr>line = j + 1, content = l\<rparr>)
                 (filter (\<lambda>(j, l). non_blank l \<and> JSON_parse l = None) (enumerate i ls))"
        by (auto simp: import_inv_def)
      have m: "map (deref h') ps = map (deref h) ps"
        using va by (auto simp: ext list_all_iff deref_append)
      have va': "list_all (valid_ref h') ps"
        using va by (auto simp: ext list_all_iff valid_ref_append)
      have step: "parse_line acc (i + length ls, l) = (h', ps @ [r], es)"
        using acc nb Some nr by (simp add: parse_line_def non_blank_def)
      show ?thesis
        unfolding step using pre va' vr dr m co er nb Some
        by (auto simp: import_inv_def enumerate_snoc ext)
    qed
  qed
qed

lemma foldl_parse_line_inv:
  "import_inv h0 i ls (foldl parse_line (h0, [], []) (enumerate i ls))"
proof (induction ls rule: rev_induct)
  case Nil
  show ?case by (simp add: import_inv_def)
next
  case (snoc l ls)
  then show ?case
    by (simp add: enumerate_snoc parse_line_inv)
qed

lemma parseContent_contents:
  "contents (parseContent st text) =
     map (\<lambda>l. the (JSON_parse l))
       (filter (\<lambda>l. non_blank l \<and> JSON_parse l \<noteq> None) (split_nl text))"
  using foldl_parse_line_inv[of "heap st" 0 "split_nl text"]
  by (auto simp: parseContent_def contents_def import_inv_def split: prod.splits)

lemma parseContent_errors:
  "errors (parseContent st text) =
     map (\<lambda>(j, l). \<lparr>line = j + 1, content = l\<rparr>)
       (filter (\<lambda>(j, l). non_blank l \<and> JSON_parse l = None) (enumerate 0 (split_nl text)))"
  using foldl_parse_line_inv[of "heap st" 0 "split_nl text"]
  by (auto simp: parseContent_def import_inv_def split: prod.splits)

lemma parseContent_valid:
  "list_all (valid_ref (heap (parseContent st text))) (conversations (parseContent st text))"
  using foldl_parse_line_inv[of "heap st" 0 "split_nl text"]
  by (auto simp: parseContent_def import_inv_def split: prod.splits)

lemma parseContent_selected: "selectedConversation (parseContent st text) = Prim JNull"
  by (simp add: parseContent_def split: prod.splits)

lemma parseContent_edit_state:
  "editingMessage (parseContent st text) = editingMessage st"
  "editedContent (parseContent st text) = editedContent st"
  "searchTerm (parseContent st text) = searchTerm st"
  by (simp_all add: parseContent_def split: prod.splits)

lemma enumerate_map_nth: "enumerate 0 ls = map (\<lambda>i. (i, ls ! i)) [0..<length ls]"
  by (rule nth_equalityI) (simp_all add: nth_enumerate_eq)

lemma length_filter_split:
  "length (filter (\<lambda>l. P l \<and> Q l \<noteq> None) ls) + length (filter (\<lambda>l. P l \<and> Q l = None) ls)
     = length (filter P ls)"
  by (induction ls) auto

lemma map_snd_filter: "map snd (filter (\<lambda>(j, l). P l) xs) = filter P (map snd xs)"
  by (induction xs) auto

lemma filter_as_positions:
  "filter P ls = map (\<lambda>i. ls ! i) (filter (\<lambda>i. P (ls ! i)) [0..<length ls])"
proof -
  have "filter P (map (\<lambda>i. ls ! i) [0..<length ls]) =
      map (\<lambda>i. ls ! i) (filter (\<lambda>i. P (ls ! i)) [0..<length ls])"
    by (simp add: filter_map comp_def)
  then show ?thesis by (simp add: map_nth)
qed

lemma parseContent_errors_positions:
  "errors (parseContent st text) =
     map (\<lambda>i. \<lparr>line = i + 1, content = split_nl text ! i\<rparr>)
       (filter (\<lambda>i. non_blank (split_nl text ! i) \<and> JSON_parse (split_nl text ! i) = None)
          [0..<length (split_nl text)])"
  by (simp add: parseContent_errors enumerate_map_nth filter_map comp_def)

lemma example_store_eval:
  "example_store =
     \<lparr>heap = [JObj [(U ''messages'',
                      JArr [JObj [(U ''role'', JStr (U ''user'')),
                                  (U ''content'', JStr (U ''hi''))]])],
              JObj [(U ''messages'',
                      JArr [JObj [(U ''role'', JStr (U ''assistant'')),
                                  (U ''content'', JStr (U ''hello''))]])]],
      conversations = [Obj 0, Obj 1], selectedConversation = Prim JNull, searchTerm = [],
      errors = [\<lparr>line = 3, content = U ''not json''\<rparr>], editingMessage = None,
      editedContent = []\<rparr>"
  by (simp add: example_store_def example_text_def parseContent_def parse_line_def
      initial_store_def trim_def is_trim_space_def new_ref_def is_object_def JSON_parse_def
      parse_chars.simps U_def skip_ws_def is_json_ws_def build_object_def define_prop_def
      key_before_def array_index_def is_digit_def unescape_def)

lemma example_lines: "length (split_nl example_text) = 4"
  by (simp add: example_text_def U_def)

text \<open>
  Claim C1 (partition of the input lines). For every input text, the values of the
  conversation collection after the import are the parsed values of exactly the non-blank
  lines that parse as JSON, the error list holds exactly the non-blank lines that do not,
  a blank line is in neither list, and the two lists together have as many entries as the
  text has non-blank lines.
\<close>

theorem import_partition:
  "contents (parseContent st text) =
     map (\<lambda>l. the (JSON_parse l))
       (filter (\<lambda>l. non_blank l \<and> JSON_parse l \<noteq> None) (split_nl text))
   \<and> map content (errors (parseContent st text)) =
       filter (\<lambda>l. non_blank l \<and> JSON_parse l = None) (split_nl text)
   \<and> length (conversations (parseContent st text)) + length (errors (parseContent st text)) =
       length (filter non_blank (split_nl text))"
proof -
  let ?ls = "split_nl text"
  have c: "contents (parseContent st text) =
     map (\<lambda>l. the (JSON_parse l)) (filter (\<lambda>l. non_blank l \<and> JSON_parse l \<noteq> None) ?ls)"
    by (rule parseContent_contents)
  have "map content (errors (parseContent st text)) =
      map snd (filter (\<lambda>(j, l). non_blank l \<and> JSON_parse l = None) (enumerate 0 ?ls))"
    by (simp add: parseContent_errors comp_def case_prod_beta)
  also have "\<dots> = filter (\<lambda>l. non_blank l \<and> JSON_parse l = None) (map snd (enumerate 0 ?ls))"
    by (rule map_snd_filter)
  finally have e: "map content (errors (parseContent st text)) =
       filter (\<lambda>l. non_blank l \<and> JSON_parse l = None) ?ls"
    by simp
  have "length (conversations (parseContent st text)) = length (contents (parseContent st text))"
    by (simp add: contents_def)
  moreover have "length (errors (parseContent st text)) =
      length (map content (errors (parseContent st text)))"
    by simp
  moreover have "length (filter (\<lambda>l. non_blank l \<and> JSON_parse l \<noteq> None) ?ls)
      + length (filter (\<lambda>l. non_blank l \<and> JSON_parse l = None) ?ls) =
      length (filter non_blank ?ls)"
    by (rule length_filter_split)
  ultimately have "length (conversations (parseContent st text))
      + length (errors (parseContent st text)) = length (filter non_blank ?ls)"
    unfolding c e by simp
  with c e show ?thesis by blast
qed

theorem import_partition_witness:
  "length (conversations example_store) + length (errors example_store) = 3
   \<and> length (filter non_blank (split_nl example_text)) = 3"
  using import_partition [of initial_store example_text]
  by (simp add: example_store_eval example_store_def [symmetric])

text \<open>
  Claim C6 (order preservation). The conversation collection holds the parsed values of
  the non-blank lines that parse, in the order of their positions in the text; the error
  list holds, for each non-blank line that does not parse, in the order of the positions,
  the position counted from one and the text of the line as it stands, untrimmed.
\<close>

theorem import_order:
  "contents (parseContent st text) =
     map (\<lambda>i. the (JSON_parse (split_nl text ! i)))
       (filter (\<lambda>i. non_blank (split_nl text ! i) \<and> JSON_parse (split_nl text ! i) \<noteq> None)
          [0..<length (split_nl text)])
   \<and> errors (parseContent st text) =
       map (\<lambda>i. \<lparr>line = i + 1, content = split_nl text ! i\<rparr>)
         (filter (\<lambda>i. non_blank (split_nl text ! i) \<and> JSON_parse (split_nl text ! i) = None)
            [0..<length (split_nl text)])"
proof -
  have "contents (parseContent st text) =
     map (\<lambda>l. the (JSON_parse l))
       (filter (\<lambda>l. non_blank l \<and> JSON_parse l \<noteq> None) (split_nl text))"
    by (rule parseContent_contents)
  also have "\<dots> = map (\<lambda>i. the (JSON_parse (split_nl text ! i)))
       (filter (\<lambda>i. non_blank (split_nl text ! i) \<and> JSON_parse (split_nl text ! i) \<noteq> None)
          [0..<length (split_nl text)])"
    by (subst filter_as_positions) (simp add: comp_def)
  finally show ?thesis
    using parseContent_errors_positions by blast
qed

text \<open>
  Claim C10 (the line numbers of the error list). The line numbers of the error list
  are strictly increasing, and each lies between one and the number of lines of the text.
\<close>

theorem import_error_lines:
  "sorted_wrt (<) (map line (errors (parseContent st text)))
   \<and> (\<forall>e \<in> set (errors (parseContent st text)).
         1 \<le> line e \<and> line e \<le> length (split_nl text))"
proof -
  let ?P = "\<lambda>i. non_blank (split_nl text ! i) \<and> JSON_parse (split_nl text ! i) = None"
  have m: "map line (errors (parseContent st text)) =
      map Suc (filter ?P [0..<length (split_nl text)])"
    by (simp add: parseContent_errors_positions comp_def)
  have "sorted_wrt (<) (filter ?P [0..<length (split_nl text)])"
    by (rule sorted_wrt_filter) simp
  then have s: "sorted_wrt (<) (map line (errors (parseContent st text)))"
    unfolding m by (simp add: sorted_wrt_map)
  have "\<forall>n \<in> set (map line (errors (parseContent st text))).
      1 \<le> n \<and> n \<le> length (split_nl text)"
    unfolding m by auto
  with s show ?thesis by simp
qed

theorem import_error_lines_witness:
  "errors example_store = [\<lparr>line = 3, content = U ''not json''\<rparr>]
   \<and> 1 \<le> line \<lparr>line = 3, content = U ''not json''\<rparr>
   \<and> line \<lparr>line = 3, content = U ''not json''\<rparr> \<le> length (split_nl example_text)"
  using import_error_lines [of initial_store example_text]
  by (simp add: example_store_eval example_store_def [symmetric])

section \<open>The edit state on import and on selection\<close>

text \<open>
  Claim C5, as the code has it. Selecting a conversation sets the edit target to none and
  leaves the draft text as it is; an import sets the selection to none. (The claim as
  written also has the import clear the edit target and both operations clear the draft:
  \<open>edit_state_kept\<close> below shows an import that keeps the target and the draft, and a
  selection that keeps the draft.)
\<close>

theorem select_and_import_reset:
  "editingMessage (handleConversationSelect st index) = None
   \<and> editedContent (handleConversationSelect st index) = editedContent st
   \<and> selectedConversation (parseContent st text) = Prim JNull"
  by (simp add: handleConversationSelect_def parseContent_selected)

theorem edit_state_kept:
  "editingMessage example_editing = Some 0
   \<and> editedContent example_editing = U ''hi there''
   \<and> editingMessage (parseContent example_editing example_text) = Some 0
   \<and> editedContent (parseContent example_editing example_text) = U ''hi there''
   \<and> editedContent (handleConversationSelect example_editing 1) = U ''hi there''"
  by (simp add: parseContent_edit_state example_editing_def setEditedContent_def
      setEditingMessage_def handleConversationSelect_def)

section \<open>Export of an empty collection\<close>

text \<open>
  Claim C7 (empty export). With an empty conversation collection the export of either
  component shows the error toast and does nothing else: no file is handed to the
  browser, no request is sent, and the state is the one before.
\<close>

theorem empty_export:
  assumes "conversations st = []"
  shows "handleDownload st = (st, [empty_export_toast])
     \<and> JsonlEditor_handleDownload st resp = (st, [empty_export_toast])
     \<and> \<not> is_download empty_export_toast"
  using assms
  by (simp add: handleDownload_def JsonlEditor_handleDownload_def is_download_def
      empty_export_toast_def)

theorem empty_export_witness:
  "conversations initial_store = []
   \<and> handleDownload initial_store = (initial_store, [empty_export_toast])
   \<and> JsonlEditor_handleDownload initial_store NoResponse = (initial_store, [empty_export_toast])"
proof -
  have h: "conversations initial_store = []" by (simp add: initial_store_def)
  show ?thesis using h empty_export [OF h, of NoResponse] by simp
qed

section \<open>Search\<close>

lemmas js_eval = parse_chars.simps U_def skip_ws_def is_json_ws_def build_object_def
  define_prop_def key_before_def array_index_def is_digit_def unescape_def trim_def
  is_trim_space_def new_ref_def is_object_def JSON_parse_def JSON_stringify_def quote_def
  deref_def toLowerCase_def simple_lower_def cased_def case_ignorable_def
  conversation_label_def show_nat.simps is_high_surrogate_def is_low_surrogate_def
  quote_unit_def

lemma starts_with_prefix: "starts_with s q \<longleftrightarrow> prefix q s"
  by (induction s q rule: starts_with.induct) auto

lemma js_includes_sublist: "js_includes s q \<longleftrightarrow> sublist q s"
proof (induction s)
  case Nil
  show ?case by simp
next
  case (Cons c cs)
  then show ?case
    by (simp add: starts_with_prefix sublist_Cons_right)
qed

lemma filter_js_total:
  "(\<And>x. x \<in> set xs \<Longrightarrow> p x = Inr (P x)) \<Longrightarrow> filter_js p xs = Inr (filter P xs)"
  by (induction xs) auto

lemma filter_all: "(\<And>x. x \<in> set xs \<Longrightarrow> P x) \<Longrightarrow> filter P xs = xs"
  by (induction xs) auto

lemma in_set_enumerate_snd: "x \<in> set (enumerate i xs) \<Longrightarrow> snd x \<in> set xs"
  by (metis in_set_zip enumerate_eq_zip nth_mem)

lemma subseq_map_snd_filter: "subseq (map snd (filter P (enumerate i xs))) xs"
proof -
  have "subseq (map snd (filter P (enumerate i xs))) (map snd (enumerate i xs))"
    by (intro subseq_map subseq_filter_left)
  then show ?thesis by simp
qed

lemma matches_total:
  assumes "JSON_stringify (deref h c) \<noteq> None"
  shows "matches lower h q (i, c) = Inr (query_matches lower h q (i, c))"
  using assms
  by (auto simp: matches_def query_matches_def conv_text_def contains_lowered_def
      js_includes_sublist conversation_label_def position_label_def)

lemma filter_js_exact:
  assumes "\<forall>x \<in> set ics. JSON_stringify (deref h (snd x)) \<noteq> None"
  shows "filter_js (matches lower h q) ics = Inr (filter (query_matches lower h q) ics)"
proof (rule filter_js_total)
  fix x assume "x \<in> set ics"
  with assms have "JSON_stringify (deref h (snd x)) \<noteq> None" by blast
  then show "matches lower h q x = Inr (query_matches lower h q x)"
    using matches_total[of h "snd x" lower q "fst x"] by simp
qed

lemma filter_conversations_exact:
  assumes "\<forall>c \<in> set convs. JSON_stringify (deref h c) \<noteq> None"
  shows "filter_conversations lower h q convs =
     Inr (map snd (filter (query_matches lower h q) (enumerate 0 convs)))"
proof -
  have "\<forall>x \<in> set (enumerate 0 convs). JSON_stringify (deref h (snd x)) \<noteq> None"
    using assms in_set_enumerate_snd by blast
  then show ?thesis by (simp add: filter_conversations_def filter_js_exact)
qed

text \<open>Filtering the kept conversations at their positions keeps them all.\<close>

lemma filter_js_kept:
  assumes "\<forall>x \<in> set ics. JSON_stringify (deref h (snd x)) \<noteq> None"
  shows "filter_js (matches lower h q) (filter (query_matches lower h q) ics) =
     Inr (filter (query_matches lower h q) ics)"
proof -
  have "\<forall>x \<in> set (filter (query_matches lower h q) ics).
      JSON_stringify (deref h (snd x)) \<noteq> None"
    using assms by simp
  then have "filter_js (matches lower h q) (filter (query_matches lower h q) ics) =
      Inr (filter (query_matches lower h q) (filter (query_matches lower h q) ics))"
    by (rule filter_js_exact)
  then show ?thesis by simp
qed

subsection \<open>ASCII texts\<close>

lemma same_letter_lower:
  "same_letter a b \<longleftrightarrow>
     (if 65 \<le> a \<and> a \<le> 90 then a + 32 else a) = (if 65 \<le> b \<and> b \<le> 90 then b + 32 else b)"
  by (auto simp: same_letter_def)

lemma list_all2_same_letter:
  "list_all2 same_letter xs ys \<longleftrightarrow>
     map (\<lambda>c. if 65 \<le> c \<and> c \<le> 90 then c + 32 else c) xs =
     map (\<lambda>c. if 65 \<le> c \<and> c \<le> 90 then c + 32 else c) ys"
proof (induction xs arbitrary: ys)
  case Nil
  show ?case by auto
next
  case (Cons x xs)
  show ?case
  proof (cases ys)
    case Nil
    then show ?thesis by simp
  next
    case (Cons y ys')
    then show ?thesis
      using Cons.IH[of ys'] same_letter_lower[of x y] by simp
  qed
qed

lemma sublist_map_pieces:
  "sublist (map f q) (map f text) \<longleftrightarrow>
     (\<exists>pre mid post. text = pre @ mid @ post \<and> map f mid = map f q)"
proof
  assume "sublist (map f q) (map f text)"
  then obtain ps ss where "map f text = ps @ map f q @ ss"
    by (auto simp: sublist_def)
  then obtain pre r where t: "text = pre @ r" and "ps = map f pre"
    and "map f q @ ss = map f r"
    by (auto simp: map_eq_append_conv)
  then obtain mid post where "r = mid @ post" "map f q = map f mid"
    by (metis map_eq_append_conv)
  with t show "\<exists>pre mid post. text = pre @ mid @ post \<and> map f mid = map f q"
    by auto
next
  assume "\<exists>pre mid post. text = pre @ mid @ post \<and> map f mid = map f q"
  then obtain pre mid post where "text = pre @ mid @ post" "map f mid = map f q" by blast
  then have "map f text = map f pre @ map f q @ map f post" by simp
  then show "sublist (map f q) (map f text)"
    unfolding sublist_def by blast
qed

lemma contains_lowered_ascii:
  assumes l: "lowers_ascii lower" and t: "ascii text" and q: "ascii q"
  shows "contains_lowered lower text q \<longleftrightarrow> contains_ci text q"
proof -
  define f where "f = (\<lambda>c::nat. if 65 \<le> c \<and> c \<le> 90 then c + 32 else c)"
  have lt: "lower text = map f text" and lq: "lower q = map f q"
    using l t q by (simp_all add: lowers_ascii_def f_def)
  have s: "\<And>xs ys. list_all2 same_letter xs ys \<longleftrightarrow> map f xs = map f ys"
    unfolding f_def by (rule list_all2_same_letter)
  show ?thesis
    unfolding contains_lowered_def contains_ci_def lt lq s by (rule sublist_map_pieces)
qed

lemma show_nat_digits: "c \<in> set (show_nat n) \<Longrightarrow> is_digit c"
proof (induction n arbitrary: c rule: show_nat.induct)
  case (1 n)
  show ?case
  proof (cases "n < 10")
    case True
    with 1(2) show ?thesis by (simp add: show_nat.simps[of n] is_digit_def)
  next
    case False
    with 1 show ?thesis
      by (auto simp: show_nat.simps[of n] is_digit_def)
  qed
qed

lemma show_nat_ascii: "ascii (show_nat n)"
proof -
  have "\<forall>c \<in> set (show_nat n). c < 128"
    using show_nat_digits by (fastforce simp: is_digit_def)
  then show ?thesis by (simp add: ascii_def list_all_iff)
qed

lemma position_label_ascii: "ascii (position_label i)"
  using show_nat_ascii[of "Suc i"] by (simp add: position_label_def ascii_def U_def)

lemma query_matches_ascii:
  assumes "lowers_ascii lower" and "ascii q" and "ascii (conv_text h (snd ic))"
  shows "query_matches lower h q ic \<longleftrightarrow>
     contains_ci (conv_text h (snd ic)) q \<or> contains_ci (position_label (fst ic)) q"
  using assms position_label_ascii
  by (simp add: query_matches_def contains_lowered_ascii)

lemma before_cased_ascii_lower:
  "ascii s \<Longrightarrow> lower_from b s = map (\<lambda>c. if 65 \<le> c \<and> c \<le> 90 then c + 32 else c) s"
  by (induction s arbitrary: b) (auto simp: ascii_def simple_lower_def)

lemma toLowerCase_lowers_ascii: "lowers_ascii toLowerCase"
  by (simp add: lowers_ascii_def toLowerCase_def before_cased_ascii_lower)

subsection \<open>The example\<close>

lemma example_conversations: "conversations example_store = [Obj 0, Obj (Suc 0)]"
  by (simp add: example_store_eval)

lemma example_texts:
  "JSON_stringify (deref (heap example_store) (Obj 0)) =
     Some (U ''{'' @ [34] @ U ''messages'' @ [34] @ U '':[{'' @ [34] @ U ''role'' @ [34] @ U '':''
           @ [34] @ U ''user'' @ [34] @ U '','' @ [34] @ U ''content'' @ [34] @ U '':'' @ [34]
           @ U ''hi'' @ [34] @ U ''}]}'')"
  "JSON_stringify (deref (heap example_store) (Obj (Suc 0))) =
     Some (U ''{'' @ [34] @ U ''messages'' @ [34] @ U '':[{'' @ [34] @ U ''role'' @ [34] @ U '':''
           @ [34] @ U ''assistant'' @ [34] @ U '','' @ [34] @ U ''content'' @ [34] @ U '':'' @ [34]
           @ U ''hello'' @ [34] @ U ''}]}'')"
  by (simp_all add: example_store_eval js_eval)

lemma example_query_hello:
  "\<not> query_matches toLowerCase (heap example_store) (U ''HeLLo'') (0, Obj 0)"
  "query_matches toLowerCase (heap example_store) (U ''HeLLo'') (Suc 0, Obj (Suc 0))"
  by (simp_all add: query_matches_def contains_lowered_def js_includes_sublist[symmetric]
      conv_text_def example_texts position_label_def)
     (simp_all add: js_eval)

lemma example_query_label:
  "query_matches toLowerCase (heap example_store) (U ''CONVERSATION 1'') (0, Obj 0)"
  "\<not> query_matches toLowerCase (heap example_store) (U ''CONVERSATION 1'') (Suc 0, Obj (Suc 0))"
  by (simp_all add: query_matches_def contains_lowered_def js_includes_sublist[symmetric]
      conv_text_def example_texts position_label_def)
     (simp_all add: js_eval)

text \<open>
  Claim C8, as the code has it. For a collection in which no conversation is \<open>undefined\<close>
  (no import and no edit puts one there), every query and every lower-casing, the
  filtered list is exactly the conversations, in their order, for which the lower-cased
  query occurs in the lower-cased serialized text or in the lower-cased label
  \<open>Conversation n\<close>, \<open>n\<close> being the position in the collection counted from one. It is a
  subsequence of the collection, which the filter only reads (it returns a list and no
  state); the empty query keeps every conversation; the filter is idempotent: applied to
  the conversations it has kept, at their positions, it keeps them all. For a query and
  a serialized text of ASCII characters the criterion is the containment of the query
  letter by letter up to case. (The claim as written has the containment up to case for
  every text; \<open>final_sigma_dropped\<close> below has a conversation whose text contains the
  query as it is written, and which the filter drops: lower-casing the whole text turns
  its capital sigma into the final sigma, and the query into the other one.)
\<close>

theorem filter_exact:
  assumes "\<forall>c \<in> set convs. JSON_stringify (deref h c) \<noteq> None"
  shows "filter_conversations lower h q convs =
           Inr (map snd (filter (query_matches lower h q) (enumerate 0 convs)))
     \<and> subseq (map snd (filter (query_matches lower h q) (enumerate 0 convs))) convs
     \<and> (lower [] = [] \<longrightarrow> filter_conversations lower h [] convs = Inr convs)
     \<and> filter_js (matches lower h q) (filter (query_matches lower h q) (enumerate 0 convs)) =
         Inr (filter (query_matches lower h q) (enumerate 0 convs))
     \<and> (lowers_ascii lower \<and> ascii q \<longrightarrow>
          (\<forall>ic \<in> set (enumerate 0 convs). ascii (conv_text h (snd ic)) \<longrightarrow>
             query_matches lower h q ic =
               (contains_ci (conv_text h (snd ic)) q \<or> contains_ci (position_label (fst ic)) q)))"
proof -
  have e: "\<And>q. filter_conversations lower h q convs =
           Inr (map snd (filter (query_matches lower h q) (enumerate 0 convs)))"
    using assms by (rule filter_conversations_exact)
  have en: "\<forall>x \<in> set (enumerate 0 convs). JSON_stringify (deref h (snd x)) \<noteq> None"
    using assms in_set_enumerate_snd by blast
  have 3: "lower [] = [] \<longrightarrow> filter_conversations lower h [] convs = Inr convs"
  proof
    assume l: "lower [] = []"
    have "filter (query_matches lower h []) (enumerate 0 convs) = enumerate 0 convs"
      by (rule filter_all) (simp add: query_matches_def contains_lowered_def l)
    then show "filter_conversations lower h [] convs = Inr convs" by (simp add: e)
  qed
  have 4: "filter_js (matches lower h q) (filter (query_matches lower h q) (enumerate 0 convs)) =
         Inr (filter (query_matches lower h q) (enumerate 0 convs))"
    using en by (rule filter_js_kept)
  have 5: "lowers_ascii lower \<and> ascii q \<longrightarrow>
          (\<forall>ic \<in> set (enumerate 0 convs). ascii (conv_text h (snd ic)) \<longrightarrow>
             query_matches lower h q ic =
               (contains_ci (conv_text h (snd ic)) q \<or> contains_ci (position_label (fst ic)) q))"
    using query_matches_ascii by blast
  from e[of q] subseq_map_snd_filter[of "query_matches lower h q" 0 convs] 3 4 5
  show ?thesis by blast
qed

theorem filter_exact_witness:
  "JSON_stringify (deref (heap example_store) (Obj 0)) \<noteq> None
   \<and> JSON_stringify (deref (heap example_store) (Obj 1)) \<noteq> None
   \<and> toLowerCase [] = []
   \<and> filter_conversations toLowerCase (heap example_store) (U ''HeLLo'') [Obj 0, Obj 1] =
       Inr [Obj 1]
   \<and> filter_conversations toLowerCase (heap example_store) (U ''CONVERSATION 1'') [Obj 0, Obj 1] =
       Inr [Obj 0]
   \<and> filter_conversations toLowerCase (heap example_store) [] [Obj 0, Obj 1] =
       Inr [Obj 0, Obj 1]
   \<and> filter_js (matches toLowerCase (heap example_store) (U ''HeLLo'')) [(1, Obj 1)] =
       Inr [(1, Obj 1)]"
proof -
  have h: "\<forall>c \<in> set [Obj 0, Obj 1]. JSON_stringify (deref (heap example_store) c) \<noteq> None"
    by (simp add: example_texts)
  have l: "toLowerCase [] = []" by (simp add: toLowerCase_def)
  have en: "enumerate 0 [Obj 0, Obj 1] = [(0, Obj 0), (Suc 0, Obj (Suc 0))]" by simp
  note t = filter_exact [OF h, of toLowerCase]
  have 1: "filter_conversations toLowerCase (heap example_store) (U ''HeLLo'') [Obj 0, Obj 1] =
       Inr [Obj 1]"
    using t[of "U ''HeLLo''"] unfolding en by (simp add: example_query_hello)
  have 2: "filter_conversations toLowerCase (heap example_store) (U ''CONVERSATION 1'')
       [Obj 0, Obj 1] = Inr [Obj 0]"
    using t[of "U ''CONVERSATION 1''"] unfolding en by (simp add: example_query_label)
  have 3: "filter_conversations toLowerCase (heap example_store) [] [Obj 0, Obj 1] =
       Inr [Obj 0, Obj 1]"
    using t[of "[]"] l by blast
  have 4: "filter_js (matches toLowerCase (heap example_store) (U ''HeLLo'')) [(1, Obj 1)] =
       Inr [(1, Obj 1)]"
    using t[of "U ''HeLLo''"] unfolding en by (simp add: example_query_hello)
  from h l 1 2 3 4 show ?thesis by simp
qed

lemma split_nl_no_newline: "10 \<notin> set l \<Longrightarrow> split_nl l = [l]"
  by (induction l) auto

lemma sigma_parse:
  "JSON_parse sigma_text =
     Some (JObj [(U ''messages'',
             JArr [JObj [(U ''role'', JStr (U ''user'')), (U ''content'', JStr [913, 931])]])])"
  by (simp add: sigma_text_def js_eval)

lemma sigma_text_line:
  "split_nl sigma_text = [sigma_text]" "trim sigma_text \<noteq> []"
proof -
  show "split_nl sigma_text = [sigma_text]"
    by (rule split_nl_no_newline) (simp add: sigma_text_def U_def)
  show "trim sigma_text \<noteq> []"
    by (simp add: sigma_text_def trim_def U_def is_trim_space_def)
qed

lemma sigma_store_eval:
  "sigma_store =
     \<lparr>heap = [JObj [(U ''messages'',
                JArr [JObj [(U ''role'', JStr (U ''user'')), (U ''content'', JStr [913, 931])]])]],
      conversations = [Obj 0], selectedConversation = Prim JNull, searchTerm = [931],
      errors = [], editingMessage = None, editedContent = []\<rparr>"
  by (simp add: sigma_store_def handleSearchChange_def parseContent_def parse_line_def
      initial_store_def sigma_text_line sigma_parse new_ref_def is_object_def)

lemma sigma_conv_text: "conv_text (heap sigma_store) (Obj 0) = sigma_text"
  by (simp add: sigma_store_eval conv_text_def sigma_text_def js_eval)

theorem final_sigma_dropped:
  "conversations sigma_store = [Obj 0]
   \<and> searchTerm sigma_store = [931]
   \<and> js_includes (conv_text (heap sigma_store) (Obj 0)) (searchTerm sigma_store)
   \<and> filteredConversations toLowerCase sigma_store = Inr []"
proof -
  have 1: "conversations sigma_store = [Obj 0]" "searchTerm sigma_store = [931]"
    by (simp_all add: sigma_store_eval)
  have 2: "js_includes (conv_text (heap sigma_store) (Obj 0)) (searchTerm sigma_store)"
    unfolding sigma_conv_text 1 by (simp add: sigma_text_def U_def)
  have t: "JSON_stringify (deref (heap sigma_store) (Obj 0)) = Some sigma_text"
    by (simp add: sigma_store_eval sigma_text_def js_eval)
  have m: "matches toLowerCase (heap sigma_store) [931] (0, Obj 0) = Inr False"
    unfolding matches_def prod.case t option.case
    by (simp add: sigma_text_def js_eval)
  have 3: "filteredConversations toLowerCase sigma_store = Inr []"
    by (simp add: filteredConversations_def filter_conversations_def 1 m)
  from 1 2 3 show ?thesis by simp
qed

section \<open>The selection after an import, a selection and an edit\<close>

lemma example_editing_eval:
  "example_editing =
     \<lparr>heap = [JObj [(U ''messages'',
                      JArr [JObj [(U ''role'', JStr (U ''user'')),
                                  (U ''content'', JStr (U ''hi''))]])],
              JObj [(U ''messages'',
                      JArr [JObj [(U ''role'', JStr (U ''assistant'')),
                                  (U ''content'', JStr (U ''hello''))]])]],
      conversations = [Obj 0, Obj 1], selectedConversation = Obj 0, searchTerm = [],
      errors = [\<lparr>line = 3, content = U ''not json''\<rparr>], editingMessage = Some 0,
      editedContent = U ''hi there''\<rparr>"
  by (simp add: example_editing_def example_store_eval setEditedContent_def setEditingMessage_def
      handleConversationSelect_def js_nth_def)

lemmas edit_eval = commitEdit_def handleMessageEdit_def update_conversations_def
  update_selected_def edit_messages_def arr_spread_def own_props_def get_prop_def js_nth_def
  js_assign_def indexOf_def truthy_def deref_def define_prop_def U_def

lemma example_commit:
  "commitEdit example_editing 0 =
     Inr \<lparr>heap = [JObj [(U ''messages'',
                      JArr [JObj [(U ''role'', JStr (U ''user'')),
                                  (U ''content'', JStr (U ''hi''))]])],
              JObj [(U ''messages'',
                      JArr [JObj [(U ''role'', JStr (U ''assistant'')),
                                  (U ''content'', JStr (U ''hello''))]])],
              JObj [(U ''messages'',
                      JArr [JObj [(U ''role'', JStr (U ''user'')),
                                  (U ''content'', JStr (U ''hi there''))]])],
              JObj [(U ''messages'',
                      JArr [JObj [(U ''role'', JStr (U ''user'')),
                                  (U ''content'', JStr (U ''hi there''))]])]],
      conversations = [Obj 2, Obj 1], selectedConversation = Obj 3, searchTerm = [],
      errors = [\<lparr>line = 3, content = U ''not json''\<rparr>], editingMessage = None,
      editedContent = []\<rparr>"
  by (simp add: example_editing_eval edit_eval)


lemma example_edited_eval:
  "example_edited =
     \<lparr>heap = [JObj [(U ''messages'',
                      JArr [JObj [(U ''role'', JStr (U ''user'')),
                                  (U ''content'', JStr (U ''hi''))]])],
              JObj [(U ''messages'',
                      JArr [JObj [(U ''role'', JStr (U ''assistant'')),
                                  (U ''content'', JStr (U ''hello''))]])],
              JObj [(U ''messages'',
                      JArr [JObj [(U ''role'', JStr (U ''user'')),
                                  (U ''content'', JStr (U ''hi there''))]])],
              JObj [(U ''messages'',
                      JArr [JObj [(U ''role'', JStr (U ''user'')),
                                  (U ''content'', JStr (U ''hi there''))]])]],
      conversations = [Obj 2, Obj 1], selectedConversation = Obj 3, searchTerm = [],
      errors = [\<lparr>line = 3, content = U ''not json''\<rparr>], editingMessage = None,
      editedContent = []\<rparr>"
  by (simp add: example_edited_def example_commit)

text \<open>The edit scenario of the specification: after the edit the export has both lines,
  the first with the new content; the editor component sends the same text to the
  server.\<close>

lemma example_export:
  \<open>handleDownload example_edited =
     (example_edited,
      [DownloadFile (U ''conversations.jsonl'') (U ''application/json'')
         (U ''{"messages":[{"role":"user","content":"hi there"}]}'' @ [10]
          @ U ''{"messages":[{"role":"assistant","content":"hello"}]}'')])\<close>
  by (simp add: handleDownload_def export_text_def example_edited_eval js_eval)

lemma example_export_legacy:
  \<open>\<exists>st'. JsonlEditor_handleMessageEdit example_editing 0 0 =
     Inr (st', [updateServerCode
         (U ''{"messages":[{"role":"user","content":"hi there"}]}'' @ [10]
          @ U ''{"messages":[{"role":"assistant","content":"hello"}]}'')])\<close>
  by (simp add: JsonlEditor_handleMessageEdit_def assign_member_content_def assign_content_def
      export_text_def example_editing_eval JSON_stringify_def quote_def quote_unit_def
      is_high_surrogate_def is_low_surrogate_def key_before_def array_index_def is_digit_def
      edit_eval)

text \<open>
  Claim C3 (the selection stays valid), evaluated on \<open>page.tsx\<close>. In the example the first
  conversation is selected (a valid selection) and its first message is edited. The two
  state updaters of \<open>handleMessageEdit\<close> each build an object of their own: afterwards the
  collection holds one new object and the selection is the other, which is at no position
  of the collection (\<open>indexOf\<close> gives \<open>-1\<close>), and the next edit of the selected
  conversation throws. In \<open>JsonlEditor\<close> the selection after an edit is the element of
  the collection that was edited (\<open>JsonlEditor_selection_valid\<close> below).
\<close>

theorem page_selection_dangles:
  "selectedConversation example_editing \<in> set (conversations example_editing)
   \<and> commitEdit example_editing 0 = Inr example_edited
   \<and> conversations example_edited = [Obj 2, Obj 1]
   \<and> selectedConversation example_edited = Obj 3
   \<and> truthy (selectedConversation example_edited)
   \<and> selectedConversation example_edited \<notin> set (conversations example_edited)
   \<and> indexOf (conversations example_edited) (selectedConversation example_edited) = - 1
   \<and> commitEdit (setEditedContent (setEditingMessage example_edited (Some 0)) (U ''again'')) 0
       = Inl TypeError"
  by (simp add: example_commit example_edited_def)
     (simp add: example_editing_eval edit_eval setEditedContent_def setEditingMessage_def)

lemma js_nth_mem: "js_nth xs i = Some x \<Longrightarrow> x \<in> set xs"
  by (auto simp: js_nth_def split: if_splits)

lemma JsonlEditor_edit_selected:
  assumes "JsonlEditor_handleMessageEdit st c m = Inr (st', effs)"
  shows "conversations st' = conversations st"
    and "js_nth (conversations st') c = Some (selectedConversation st')"
  using assms
  by (auto simp: JsonlEditor_handleMessageEdit_def js_nth_def Let_def
      split: option.splits jsref.splits jsval.splits sum.splits if_splits)

lemma JsonlEditor_selection_valid:
  assumes "JsonlEditor_handleMessageEdit st c m = Inr (st', effs)"
  shows "selection_valid st'"
  using JsonlEditor_edit_selected(2)[OF assms]
  by (simp add: selection_valid_def js_nth_mem)

lemma parseContent_selection_valid: "selection_valid (parseContent st text)"
  by (simp add: selection_valid_def parseContent_selected truthy_def)

lemma select_selection_valid: "selection_valid (handleConversationSelect st index)"
  by (auto simp: selection_valid_def handleConversationSelect_def truthy_def js_nth_def)

lemma filter_js_subset: "filter_js p xs = Inr ys \<Longrightarrow> set ys \<subseteq> set xs"
  by (induction xs arbitrary: ys) (auto split: sum.splits if_splits)

lemma filter_conversations_subset:
  assumes "filter_conversations lower h q convs = Inr fs"
  shows "set fs \<subseteq> set convs"
proof -
  from assms obtain ics where f: "filter_js (matches lower h q) (enumerate 0 convs) = Inr ics"
    and fs: "fs = map snd ics"
    by (auto simp: filter_conversations_def split: sum.splits)
  show ?thesis
  proof
    fix c assume "c \<in> set fs"
    then obtain x where "x \<in> set ics" "c = snd x" using fs by auto
    with filter_js_subset[OF f] have "x \<in> set (enumerate 0 convs)" by blast
    then show "c \<in> set convs" using \<open>c = snd x\<close> by (simp add: in_set_enumerate_snd)
  qed
qed

lemma autoSelect_selection_valid:
  assumes "selection_valid st" and "autoSelect lower st = Inr st'"
  shows "selection_valid st'"
proof -
  from assms(2) obtain fs where f: "filteredConversations lower st = Inr fs"
    and st': "st' = (if length fs > 0 \<and> \<not> truthy (selectedConversation st)
               then st\<lparr>selectedConversation := fs ! 0\<rparr> else st)"
    by (auto simp: autoSelect_def split: sum.splits)
  from f have sub: "set fs \<subseteq> set (conversations st)"
    by (auto simp: filteredConversations_def dest: filter_conversations_subset)
  show ?thesis
  proof (cases "length fs > 0 \<and> \<not> truthy (selectedConversation st)")
    case True
    then have "fs ! 0 \<in> set fs" by simp
    with sub True st' show ?thesis by (auto simp: selection_valid_def)
  next
    case False
    then have "st' = st" unfolding st' by (rule if_not_P)
    with assms(1) show ?thesis by simp
  qed
qed

section \<open>The objects of an imported collection\<close>

text \<open>Every conversation object of an import is a new object of the heap, so the
  collection holds it once (and \<open>parseContent_valid\<close>: every reference points into the
  heap).\<close>

lemma no_alias_snoc_prim:
  assumes "no_alias ps"
  shows "no_alias (ps @ [Prim v])"
  unfolding no_alias_def
proof (intro allI impI)
  fix i j a
  assume i: "i < length (ps @ [Prim v])" and j: "j < length (ps @ [Prim v])"
    and ij: "i \<noteq> j" and a: "(ps @ [Prim v]) ! i = Obj a"
  from i a have il: "i < length ps"
    by (cases "i = length ps") (simp_all add: nth_append)
  with a have ai: "ps ! i = Obj a" by (simp add: nth_append)
  show "(ps @ [Prim v]) ! j \<noteq> Obj a"
  proof (cases "j < length ps")
    case True
    from assms il True ij ai have "ps ! j \<noteq> Obj a"
      unfolding no_alias_def by blast
    with True show ?thesis by (simp add: nth_append)
  next
    case False
    with j have "j = length ps" by simp
    then show ?thesis by (simp add: nth_append)
  qed
qed

lemma no_alias_snoc_fresh:
  assumes "no_alias ps" and "list_all (valid_ref h) ps"
  shows "no_alias (ps @ [Obj (length h)])"
proof -
  have fresh: "ps ! i \<noteq> Obj (length h)" if "i < length ps" for i
    using assms(2) that by (auto simp: list_all_length valid_ref_def split: jsref.splits)
  show ?thesis
    unfolding no_alias_def
  proof (intro allI impI)
    fix i j a
    assume i: "i < length (ps @ [Obj (length h)])" and j: "j < length (ps @ [Obj (length h)])"
      and ij: "i \<noteq> j" and a: "(ps @ [Obj (length h)]) ! i = Obj a"
    show "(ps @ [Obj (length h)]) ! j \<noteq> Obj a"
    proof (cases "i < length ps")
      case True
      show ?thesis
      proof (cases "j < length ps")
        case jt: True
        from True a have "ps ! i = Obj a" by (simp add: nth_append)
        with assms(1) True jt ij have "ps ! j \<noteq> Obj a"
          unfolding no_alias_def by blast
        with jt show ?thesis by (simp add: nth_append)
      next
        case False
        with j have "j = length ps" by simp
        with True a fresh[of i] show ?thesis by (auto simp: nth_append)
      qed
    next
      case False
      with i have il: "i = length ps" by simp
      with ij j have jl: "j < length ps" by simp
      from il a have "a = length h" by (simp add: nth_append)
      with jl fresh[of j] show ?thesis by (simp add: nth_append)
    qed
  qed
qed

lemma parse_line_no_alias:
  assumes "list_all (valid_ref h) ps" and "no_alias ps"
    and "parse_line (h, ps, es) il = (h', ps', es')"
  shows "list_all (valid_ref h') ps' \<and> no_alias ps'"
proof -
  obtain i l where il: "il = (i, l)" by (cases il)
  show ?thesis
  proof (cases "trim l \<noteq> [] \<and> JSON_parse l \<noteq> None")
    case False
    with assms il show ?thesis
      by (auto simp: parse_line_def split: if_splits option.splits)
  next
    case True
    then obtain v where v: "JSON_parse l = Some v" by auto
    show ?thesis
    proof (cases "is_object v")
      case obj: True
      with assms(3) il True v have e: "h' = h @ [v]" "ps' = ps @ [Obj (length h)]"
        by (auto simp: parse_line_def new_ref_def)
      have "list_all (valid_ref (h @ [v])) ps"
        using assms(1) by (auto simp: list_all_iff valid_ref_append)
      then show ?thesis
        using no_alias_snoc_fresh[OF assms(2,1)] by (simp add: e valid_ref_def)
    next
      case False
      with assms(3) il True v have e: "h' = h" "ps' = ps @ [Prim v]"
        by (auto simp: parse_line_def new_ref_def)
      with assms(1) no_alias_snoc_prim[OF assms(2)] show ?thesis
        by (simp add: valid_ref_def)
    qed
  qed
qed

lemma foldl_parse_line_no_alias:
  assumes "list_all (valid_ref h) ps" and "no_alias ps"
    and "foldl parse_line (h, ps, es) ils = (h', ps', es')"
  shows "list_all (valid_ref h') ps' \<and> no_alias ps'"
  using assms
proof (induction ils arbitrary: h ps es)
  case Nil
  then show ?case by simp
next
  case (Cons il ils)
  obtain h1 ps1 es1 where s: "parse_line (h, ps, es) il = (h1, ps1, es1)"
    by (cases "parse_line (h, ps, es) il") auto
  from parse_line_no_alias[OF Cons.prems(1,2) s]
  have "list_all (valid_ref h1) ps1" "no_alias ps1" by auto
  then show ?case
    using Cons.IH[of h1 ps1 es1] Cons.prems(3) s by simp
qed

lemma parseContent_no_alias: "no_alias (conversations (parseContent st text))"
proof -
  obtain h ps es where f: "foldl parse_line (heap st, [], []) (enumerate 0 (split_nl text)) = (h, ps, es)"
    by (cases "foldl parse_line (heap st, [], []) (enumerate 0 (split_nl text))") auto
  have "list_all (valid_ref (heap st)) []" "no_alias []" by (simp_all add: no_alias_def)
  from foldl_parse_line_no_alias[OF this f] show ?thesis
    by (simp add: parseContent_def f)
qed

lemma no_alias_other:
  assumes "no_alias convs" and "c < length convs" and "convs ! c = Obj a"
  shows "\<forall>i < length convs. i \<noteq> c \<longrightarrow> convs ! i \<noteq> Obj a"
  using assms unfolding no_alias_def by blast

section \<open>Edit isolation\<close>

lemma map_of_replace_prop_same:
  "k \<in> set (map fst ps) \<Longrightarrow> map_of (replace_prop ps k v) k = Some v"
  by (induction ps) force+

lemma map_of_replace_prop_other:
  "k' \<noteq> k \<Longrightarrow> map_of (replace_prop ps k v) k' = map_of ps k'"
  by (induction ps) auto

lemma map_of_insert_prop_same:
  "k \<notin> set (map fst ps) \<Longrightarrow> map_of (insert_prop ps k v) k = Some v"
  by (induction ps) auto

lemma map_of_insert_prop_other:
  "k' \<noteq> k \<Longrightarrow> map_of (insert_prop ps k v) k' = map_of ps k'"
  by (induction ps) auto

lemma get_define_same: "get_prop (define_prop ps k v) k = Some v"
  by (simp add: get_prop_def define_prop_def map_of_replace_prop_same map_of_insert_prop_same)

lemma get_define_other: "k' \<noteq> k \<Longrightarrow> get_prop (define_prop ps k v) k' = get_prop ps k'"
  by (simp add: get_prop_def define_prop_def map_of_replace_prop_other map_of_insert_prop_other)

lemma edited_conversation_isolated:
  assumes c: "c < length old" and o: "old ! c = JObj ps"
    and ms: "get_prop ps (U ''messages'') = Some (JArr ms)"
    and m: "m < length ms" and f: "ms ! m = JObj fs"
  shows "edit_isolated old (old[c := edited_conversation ps ms fs m draft]) c m draft"
proof -
  let ?new = "old[c := edited_conversation ps ms fs m draft]"
  have n: "?new ! c = edited_conversation ps ms fs m draft" using c by simp
  have mo: "messages_of (old ! c) = ms" by (simp add: messages_of_def o ms)
  have mn: "messages_of (?new ! c) = ms[m := JObj (define_prop fs (U ''content'') (JStr draft))]"
    using c by (simp add: edited_conversation_def messages_of_def get_define_same)
  have 1: "\<forall>k. k \<noteq> U ''messages'' \<longrightarrow> field (?new ! c) k = field (old ! c) k"
    using c by (simp add: o field_def edited_conversation_def get_define_other)
  have 2: "\<forall>k. k \<noteq> U ''content'' \<longrightarrow>
      field (messages_of (?new ! c) ! m) k = field (messages_of (old ! c) ! m) k"
    using m by (simp add: mn mo f field_def get_define_other)
  have 3: "field (messages_of (?new ! c) ! m) (U ''content'') = Some (JStr draft)"
    using m by (simp add: mn field_def get_define_same)
  have 4: "\<forall>j < length (messages_of (old ! c)). j \<noteq> m \<longrightarrow>
            messages_of (?new ! c) ! j = messages_of (old ! c) ! j"
    by (simp add: mn mo)
  have 5: "length (messages_of (?new ! c)) = length (messages_of (old ! c))"
    by (simp add: mn mo)
  have 6: "\<forall>i < length old. i \<noteq> c \<longrightarrow> ?new ! i = old ! i" by simp
  show ?thesis
    unfolding edit_isolated_def using 1 2 3 4 5 6 by simp
qed


lemma js_nth_int: "i < length xs \<Longrightarrow> js_nth xs (int i) = Some (xs ! i)"
  by (simp add: js_nth_def)

lemma js_assign_int: "i < length xs \<Longrightarrow> js_assign hole xs (int i) v = xs[i := v]"
  by (simp add: js_assign_def)

lemma edit_messages_array:
  assumes "m < length ms" and "ms ! m = JObj fs"
  shows "edit_messages (Some (JArr ms)) (int m) draft =
     Inr (ms[m := JObj (define_prop fs (U ''content'') (JStr draft))])"
  using assms by (simp add: edit_messages_def arr_spread_def js_nth_int js_assign_int own_props_def)

lemma update_conversations_typed:
  assumes "c < length convs" and "deref h (convs ! c) = JObj ps"
    and "get_prop ps (U ''messages'') = Some (JArr ms)" and "m < length ms" and "ms ! m = JObj fs"
  shows "update_conversations h convs (int c) (int m) draft =
     Inr (h @ [edited_conversation ps ms fs m draft], convs[c := Obj (length h)])"
  using assms
  by (simp add: update_conversations_def js_nth_int js_assign_int own_props_def
      edit_messages_array edited_conversation_def)

lemma update_selected_typed:
  assumes "\<not> truthy sel \<or> (\<exists>ps ms. deref h sel = JObj ps \<and> get_prop ps (U ''messages'') = Some (JArr ms))"
  shows "\<exists>ext sel'. update_selected h sel m draft = Inr (h @ ext, sel')"
proof (cases "truthy sel")
  case False
  then show ?thesis by (simp add: update_selected_def)
next
  case True
  with assms obtain ps ms where "deref h sel = JObj ps" "get_prop ps (U ''messages'') = Some (JArr ms)"
    by auto
  with True show ?thesis
    by (simp add: update_selected_def edit_messages_def arr_spread_def)
qed

lemma contents_after_update:
  assumes v: "list_all (valid_ref h) convs" and c: "c < length convs"
  shows "map (deref (h @ [x] @ ext)) (convs[c := Obj (length h)]) = (map (deref h) convs)[c := x]"
proof (rule nth_equalityI)
  show "length (map (deref (h @ [x] @ ext)) (convs[c := Obj (length h)])) =
      length ((map (deref h) convs)[c := x])" by simp
next
  fix i assume "i < length (map (deref (h @ [x] @ ext)) (convs[c := Obj (length h)]))"
  then have i: "i < length convs" by simp
  show "map (deref (h @ [x] @ ext)) (convs[c := Obj (length h)]) ! i = (map (deref h) convs)[c := x] ! i"
  proof (cases "i = c")
    case True
    with c show ?thesis by (simp add: deref_def nth_append)
  next
    case False
    from v i have "valid_ref h (convs ! i)" by (simp add: list_all_length)
    then have "deref (h @ ([x] @ ext)) (convs ! i) = deref h (convs ! i)" by (rule deref_append)
    with False i show ?thesis by simp
  qed
qed

lemma page_edit_contents:
  assumes c: "c < length (conversations st)" and o: "deref (heap st) (conversations st ! c) = JObj ps"
    and ms: "get_prop ps (U ''messages'') = Some (JArr ms)" and m: "m < length ms"
    and f: "ms ! m = JObj fs"
    and v: "list_all (valid_ref (heap st)) (conversations st)"
    and sel: "\<not> truthy (selectedConversation st)
       \<or> (\<exists>ps' ms'. deref (heap st) (selectedConversation st) = JObj ps'
             \<and> get_prop ps' (U ''messages'') = Some (JArr ms'))"
  shows "\<exists>st'. handleMessageEdit st (int c) (int m) = Inr st'
     \<and> contents st' = (contents st)[c := edited_conversation ps ms fs m (editedContent st)]
     \<and> editingMessage st' = None \<and> editedContent st' = []"
proof -
  let ?x = "edited_conversation ps ms fs m (editedContent st)"
  let ?h1 = "heap st @ [?x]"
  have u: "update_conversations (heap st) (conversations st) (int c) (int m) (editedContent st) =
     Inr (?h1, (conversations st)[c := Obj (length (heap st))])"
    using c o ms m f by (rule update_conversations_typed)
  have sel1: "\<not> truthy (selectedConversation st)
       \<or> (\<exists>ps' ms'. deref ?h1 (selectedConversation st) = JObj ps'
             \<and> get_prop ps' (U ''messages'') = Some (JArr ms'))"
  proof (cases "truthy (selectedConversation st)")
    case False then show ?thesis by simp
  next
    case True
    with sel obtain ps' ms' where d: "deref (heap st) (selectedConversation st) = JObj ps'"
      and g: "get_prop ps' (U ''messages'') = Some (JArr ms')" by auto
    from d have "valid_ref (heap st) (selectedConversation st)"
      by (auto simp: valid_ref_def deref_def split: jsref.splits if_splits)
    then have "deref ?h1 (selectedConversation st) = deref (heap st) (selectedConversation st)"
      by (rule deref_append)
    with d g show ?thesis by auto
  qed
  from update_selected_typed[OF sel1, of "int m" "editedContent st"]
  obtain ext sel' where s: "update_selected ?h1 (selectedConversation st) (int m) (editedContent st)
      = Inr (?h1 @ ext, sel')" by blast
  let ?st' = "st\<lparr>heap := ?h1 @ ext, conversations := (conversations st)[c := Obj (length (heap st))],
      selectedConversation := sel', editingMessage := None, editedContent := []\<rparr>"
  have r: "handleMessageEdit st (int c) (int m) = Inr ?st'"
    by (simp add: handleMessageEdit_def u s)
  have "contents ?st' = (contents st)[c := ?x]"
    using contents_after_update[OF v c, of ?x ext] by (simp add: contents_def)
  with r show ?thesis by simp
qed

lemma legacy_edit_contents:
  assumes c: "c < length (conversations st)" and r: "conversations st ! c = Obj a"
    and a: "a < length (heap st)" and o: "heap st ! a = JObj ps"
    and ms: "get_prop ps (U ''messages'') = Some (JArr ms)" and m: "m < length ms"
    and f: "ms ! m = JObj fs"
    and na: "\<forall>i < length (conversations st). i \<noteq> c \<longrightarrow> conversations st ! i \<noteq> Obj a"
  shows "\<exists>st' effs. JsonlEditor_handleMessageEdit st (int c) (int m) = Inr (st', effs)
     \<and> contents st' = (contents st)[c := edited_conversation ps ms fs m (editedContent st)]
     \<and> editingMessage st' = None \<and> editedContent st' = []"
proof -
  let ?x = "edited_conversation ps ms fs m (editedContent st)"
  let ?h = "(heap st)[a := ?x]"
  have am: "assign_member_content (Some (JArr ms)) (int m) (editedContent st) =
      Inr (JArr (ms[m := JObj (define_prop fs (U ''content'') (JStr (editedContent st)))]))"
    using m f by (simp add: assign_member_content_def js_nth_int assign_content_def)
  let ?st' = "st\<lparr>heap := ?h, selectedConversation := Obj a, editingMessage := None,
      editedContent := []\<rparr>"
  have e: "JsonlEditor_handleMessageEdit st (int c) (int m) =
      Inr (?st', [updateServerCode (export_text ?h (conversations st))])"
    using c r a o ms
    by (simp add: JsonlEditor_handleMessageEdit_def js_nth_int deref_def am Let_def
        edited_conversation_def)
  have "map (deref ?h) (conversations st) = (map (deref (heap st)) (conversations st))[c := ?x]"
  proof (rule nth_equalityI)
    show "length (map (deref ?h) (conversations st)) =
        length ((map (deref (heap st)) (conversations st))[c := ?x])" by simp
  next
    fix i assume "i < length (map (deref ?h) (conversations st))"
    then have i: "i < length (conversations st)" by simp
    show "map (deref ?h) (conversations st) ! i =
        (map (deref (heap st)) (conversations st))[c := ?x] ! i"
    proof (cases "i = c")
      case True
      with c r a show ?thesis by (simp add: deref_def)
    next
      case False
      with na i have "conversations st ! i \<noteq> Obj a" by blast
      then have "deref ?h (conversations st ! i) = deref (heap st) (conversations st ! i)"
        by (cases "conversations st ! i") (auto simp: deref_def)
      with False i show ?thesis by simp
    qed
  qed
  then have "contents ?st' = (contents st)[c := ?x]" by (simp add: contents_def)
  with e show ?thesis by simp
qed


text \<open>
  Claim C4 (edit isolation). Let \<open>c\<close> be a position of the collection that holds a
  conversation object with a message array, and \<open>m\<close> a position of that array that holds
  a message object. In a well-formed state (every reference of the collection points into
  the heap, no other position of the collection holds the same object, and the selection
  is none or a conversation object with a message array), the edit of either component
  succeeds, and between the collection before and the collection after only the content of
  message \<open>m\<close> of conversation \<open>c\<close> differs: it is the draft text.
\<close>

theorem edit_isolation:
  assumes c: "c < length (conversations st)" and r: "conversations st ! c = Obj a"
    and a: "a < length (heap st)" and o: "heap st ! a = JObj ps"
    and ms: "get_prop ps (U ''messages'') = Some (JArr ms)" and m: "m < length ms"
    and f: "ms ! m = JObj fs"
    and v: "list_all (valid_ref (heap st)) (conversations st)"
    and na: "\<forall>i < length (conversations st). i \<noteq> c \<longrightarrow> conversations st ! i \<noteq> Obj a"
    and sel: "\<not> truthy (selectedConversation st)
       \<or> (\<exists>ps' ms'. deref (heap st) (selectedConversation st) = JObj ps'
             \<and> get_prop ps' (U ''messages'') = Some (JArr ms'))"
  shows "(\<exists>st'. handleMessageEdit st (int c) (int m) = Inr st'
            \<and> edit_isolated (contents st) (contents st') c m (editedContent st))
     \<and> (\<exists>st' effs. JsonlEditor_handleMessageEdit st (int c) (int m) = Inr (st', effs)
            \<and> edit_isolated (contents st) (contents st') c m (editedContent st))"
proof -
  have d: "deref (heap st) (conversations st ! c) = JObj ps"
    using r a o by (simp add: deref_def)
  have c': "c < length (contents st)" using c by (simp add: contents_def)
  have o': "contents st ! c = JObj ps" using c d by (simp add: contents_def)
  have iso: "edit_isolated (contents st)
      ((contents st)[c := edited_conversation ps ms fs m (editedContent st)]) c m (editedContent st)"
    using c' o' ms m f by (rule edited_conversation_isolated)
  from page_edit_contents[OF c d ms m f v sel] iso
  have 1: "\<exists>st'. handleMessageEdit st (int c) (int m) = Inr st'
            \<and> edit_isolated (contents st) (contents st') c m (editedContent st)"
    by auto
  from legacy_edit_contents[OF c r a o ms m f na] iso
  have 2: "\<exists>st' effs. JsonlEditor_handleMessageEdit st (int c) (int m) = Inr (st', effs)
            \<and> edit_isolated (contents st) (contents st') c m (editedContent st)"
    by auto
  from 1 2 show ?thesis by simp
qed

theorem edit_isolation_witness:
  "(\<exists>st'. handleMessageEdit example_editing 0 0 = Inr st'
       \<and> edit_isolated (contents example_editing) (contents st') 0 0 (U ''hi there''))
   \<and> (\<exists>st' effs. JsonlEditor_handleMessageEdit example_editing 0 0 = Inr (st', effs)
       \<and> edit_isolated (contents example_editing) (contents st') 0 0 (U ''hi there''))"
proof -
  let ?ps = "[(U ''messages'', JArr [JObj [(U ''role'', JStr (U ''user'')),
                                  (U ''content'', JStr (U ''hi''))]])]"
  let ?ms = "[JObj [(U ''role'', JStr (U ''user'')), (U ''content'', JStr (U ''hi''))]]"
  let ?fs = "[(U ''role'', JStr (U ''user'')), (U ''content'', JStr (U ''hi''))]"
  have c: "0 < length (conversations example_editing)"
    and r: "conversations example_editing ! 0 = Obj 0"
    and a: "0 < length (heap example_editing)"
    and o: "heap example_editing ! 0 = JObj ?ps"
    and v: "list_all (valid_ref (heap example_editing)) (conversations example_editing)"
    and na: "\<forall>i < length (conversations example_editing). i \<noteq> 0 \<longrightarrow>
        conversations example_editing ! i \<noteq> Obj 0"
    and sel: "\<not> truthy (selectedConversation example_editing)
       \<or> (\<exists>ps' ms'. deref (heap example_editing) (selectedConversation example_editing) = JObj ps'
             \<and> get_prop ps' (U ''messages'') = Some (JArr ms'))"
    and d: "editedContent example_editing = U ''hi there''"
    by (simp_all add: example_editing_eval valid_ref_def deref_def get_prop_def U_def less_Suc_eq)
  have ms: "get_prop ?ps (U ''messages'') = Some (JArr ?ms)"
    and m: "0 < length ?ms" and f: "?ms ! 0 = JObj ?fs"
    by (simp_all add: get_prop_def)
  show ?thesis
    using edit_isolation [OF c r a o ms m f v na sel] by (simp add: d)
qed

section \<open>Doubles\<close>

subsection \<open>The binary exponent of a fraction\<close>

lemma bit_length_bounds:
  "0 < n \<Longrightarrow> 2 ^ (bit_length n - 1) \<le> n \<and> n < 2 ^ bit_length n"
proof (induction n rule: bit_length.induct)
  case (1 n)
  show ?case
  proof (cases "n div 2 = 0")
    case True
    with 1(2) have "n = 1" by (cases n) auto
    then show ?thesis by (simp add: bit_length.simps)
  next
    case False
    then have pos: "0 < n div 2" by simp
    from 1(2) have n0: "n \<noteq> 0" by simp
    from 1(1)[OF n0 pos] have lo: "2 ^ (bit_length (n div 2) - 1) \<le> n div 2"
      and hi: "n div 2 < 2 ^ bit_length (n div 2)" by auto
    have bl: "bit_length n = Suc (bit_length (n div 2))"
      using n0 by (subst bit_length.simps) simp
    have b1: "0 < bit_length (n div 2)"
      using pos by (subst bit_length.simps) simp
    have "2 ^ (bit_length n - 1) = 2 * 2 ^ (bit_length (n div 2) - 1)"
      using bl b1 by (cases "bit_length (n div 2)") simp_all
    also have "\<dots> \<le> 2 * (n div 2)" using lo by simp
    also have "\<dots> \<le> n" by simp
    finally have 1: "2 ^ (bit_length n - 1) \<le> n" .
    have "n < 2 * (n div 2) + 2" by presburger
    also have "\<dots> \<le> 2 * 2 ^ bit_length (n div 2)" using hi by simp
    finally have "n < 2 ^ bit_length n" using bl by simp
    with 1 show ?thesis by simp
  qed
qed

lemma bit_length_pos: "0 < n \<Longrightarrow> 0 < bit_length n"
  by (subst bit_length.simps) simp

lemma scale2_value:
  assumes "0 < d" and "scale2 n d q = (a, b)"
  shows "0 < b \<and> real a / real b = real n / real d / 2 powi q"
proof (cases "0 \<le> q")
  case True
  with assms have "a = n" "b = d * 2 ^ nat q" by (simp_all add: scale2_def)
  moreover have "(2::real) powi q = 2 ^ nat q" using True by (simp add: power_int_def)
  ultimately show ?thesis using assms(1) by simp
next
  case False
  with assms have "a = n * 2 ^ nat (- q)" "b = d" by (simp_all add: scale2_def)
  moreover have "(2::real) powi q = inverse (2 ^ nat (- q))"
    using False by (simp add: power_int_def power_one_over inverse_eq_divide)
  ultimately show ?thesis using assms(1) by (simp add: field_simps)
qed

lemma powi2_mono: "q \<le> q' \<Longrightarrow> (2::real) powi q \<le> 2 powi q'"
  by (rule power_int_increasing) simp_all

lemma powi2_Suc: "(2::real) powi (q + 1) = 2 * 2 powi q"
  by (simp add: power_int_add)

lemma floor_log2_bounds:
  assumes "0 < n" and "0 < d"
  shows "2 powi (floor_log2 n d) \<le> real n / real d \<and> real n / real d < 2 powi (floor_log2 n d + 1)"
proof -
  define t where "t = int (bit_length n) - int (bit_length d)"
  obtain a b where s: "scale2 n d t = (a, b)" by (cases "scale2 n d t")
  from scale2_value[OF assms(2) s] have b: "0 < b" and v: "real a / real b = real n / real d / 2 powi t"
    by auto
  have fl: "floor_log2 n d = (if b \<le> a then t else t - 1)"
    by (simp add: floor_log2_def t_def[symmetric] s)
  have p: "(0::real) < 2 powi t" by simp
  from bit_length_bounds[OF assms(1)] have n1: "real n < 2 ^ bit_length n"
    and n2: "(2::real) ^ (bit_length n - 1) \<le> real n"
    by (metis of_nat_less_iff of_nat_numeral of_nat_power, metis of_nat_le_iff of_nat_numeral of_nat_power)
  from bit_length_bounds[OF assms(2)] have d1: "real d < 2 ^ bit_length d"
    and d2: "(2::real) ^ (bit_length d - 1) \<le> real d"
    by (metis of_nat_less_iff of_nat_numeral of_nat_power, metis of_nat_le_iff of_nat_numeral of_nat_power)
  have bn: "0 < bit_length n" and bd: "0 < bit_length d"
    using assms by (simp_all add: bit_length_pos)
  have pn: "(2::real) ^ bit_length n = 2 powi (int (bit_length n))" by simp
  have pd: "(2::real) ^ bit_length d = 2 powi (int (bit_length d))" by simp
  have pn1: "(2::real) ^ (bit_length n - 1) = 2 powi (int (bit_length n) - 1)"
    using bn by (simp add: power_int_def nat_diff_distrib')
  have pd1: "(2::real) ^ (bit_length d - 1) = 2 powi (int (bit_length d) - 1)"
    using bd by (simp add: power_int_def nat_diff_distrib')
  have dpos: "0 < real d" using assms by simp
  have up: "real n / real d < 2 powi (t + 1)"
  proof -
    have "real n / real d < 2 powi (int (bit_length n)) / real d"
      using n1 dpos unfolding pn by (simp add: divide_strict_right_mono)
    also have "\<dots> \<le> 2 powi (int (bit_length n)) / 2 powi (int (bit_length d) - 1)"
    proof (rule divide_left_mono)
      show "2 powi (int (bit_length d) - 1) \<le> real d" using d2 unfolding pd1 .
      show "0 \<le> (2::real) powi int (bit_length n)" by simp
      show "0 < real d * 2 powi (int (bit_length d) - 1)" using dpos by simp
    qed
    also have "\<dots> = 2 powi (int (bit_length n) - (int (bit_length d) - 1))"
      by (rule power_int_diff[symmetric]) simp
    also have "int (bit_length n) - (int (bit_length d) - 1) = t + 1"
      unfolding t_def by simp
    finally show ?thesis .
  qed
  have lo: "2 powi (t - 1) \<le> real n / real d"
  proof -
    have "t - 1 = int (bit_length n) - 1 - int (bit_length d)"
      unfolding t_def by simp
    then have "(2::real) powi (t - 1) = 2 powi (int (bit_length n) - 1 - int (bit_length d))"
      by (rule arg_cong)
    also have "\<dots> = 2 powi (int (bit_length n) - 1) / 2 powi (int (bit_length d))"
      by (rule power_int_diff) simp
    also have "\<dots> \<le> real n / 2 powi (int (bit_length d))"
      using n2 unfolding pn1 by (simp add: divide_right_mono)
    also have "\<dots> \<le> real n / real d"
    proof (rule divide_left_mono)
      show "real d \<le> 2 powi int (bit_length d)" using d1 unfolding pd by simp
      show "0 \<le> real n" by simp
      show "0 < 2 powi int (bit_length d) * real d" using dpos by simp
    qed
    finally show ?thesis .
  qed
  have x: "real n / real d = real a / real b * 2 powi t"
    using v p by simp
  show ?thesis
  proof (cases "b \<le> a")
    case True
    then have "1 \<le> real a / real b" using b by simp
    then have "1 * 2 powi t \<le> real a / real b * 2 powi t"
      using p by (intro mult_right_mono) simp_all
    with x have "2 powi t \<le> real n / real d" by simp
    with up fl True show ?thesis by simp
  next
    case False
    then have "real a / real b < 1" using b by simp
    then have "real a / real b * 2 powi t < 1 * 2 powi t"
      using p by (intro mult_strict_right_mono) simp_all
    with x have "real n / real d < 2 powi t" by simp
    with lo fl False show ?thesis by simp
  qed
qed

lemma floor_log2_eq:
  assumes "0 < n" and "0 < d"
    and "2 powi q \<le> real n / real d" and "real n / real d < 2 powi (q + 1)"
  shows "floor_log2 n d = q"
proof -
  let ?f = "floor_log2 n d"
  from floor_log2_bounds[OF assms(1,2)]
  have 1: "2 powi ?f \<le> real n / real d" and 2: "real n / real d < 2 powi (?f + 1)" by auto
  have "\<not> ?f < q"
  proof
    assume "?f < q"
    then have "(2::real) powi (?f + 1) \<le> 2 powi q" by (intro powi2_mono) simp
    with 2 assms(3) show False by simp
  qed
  moreover have "\<not> q < ?f"
  proof
    assume "q < ?f"
    then have "(2::real) powi (q + 1) \<le> 2 powi ?f" by (intro powi2_mono) simp
    with 1 assms(4) show False by simp
  qed
  ultimately show ?thesis by simp
qed

lemma floor_log2_ratio:
  assumes "0 < n" and "0 < d" and "0 < n'" and "0 < d'"
    and "real n / real d = real n' / real d'"
  shows "floor_log2 n d = floor_log2 n' d'"
  using floor_log2_bounds[OF assms(3,4)] assms(5)
  by (intro floor_log2_eq[OF assms(1,2)]) simp_all

subsection \<open>Rounding\<close>

lemma round_half_even_real:
  assumes "0 < b"
  shows "round_half_even a b =
     (let x = real a / real b; f = nat \<lfloor>x\<rfloor>; fr = x - real f in
      if fr < 1 / 2 then f else if 1 / 2 < fr then f + 1 else if even f then f else f + 1)"
proof -
  let ?x = "real a / real b"
  have f: "nat \<lfloor>?x\<rfloor> = a div b"
    by (simp add: floor_divide_of_nat_eq)
  have "real a = real (a div b) * real b + real (a mod b)"
    by (metis div_mult_mod_eq of_nat_add of_nat_mult)
  then have fr: "?x - real (a div b) = real (a mod b) / real b"
    using assms by (simp add: field_simps)
  have 1: "2 * (a mod b) < b \<longleftrightarrow> real (a mod b) / real b < 1 / 2"
  proof -
    have "2 * (a mod b) < b \<longleftrightarrow> 2 * real (a mod b) < real b"
      by (metis of_nat_less_iff of_nat_mult of_nat_numeral)
    also have "\<dots> \<longleftrightarrow> real (a mod b) / real b < 1 / 2"
      using assms by (simp add: field_simps)
    finally show ?thesis .
  qed
  have 2: "b < 2 * (a mod b) \<longleftrightarrow> 1 / 2 < real (a mod b) / real b"
  proof -
    have "b < 2 * (a mod b) \<longleftrightarrow> real b < 2 * real (a mod b)"
      by (metis of_nat_less_iff of_nat_mult of_nat_numeral)
    also have "\<dots> \<longleftrightarrow> 1 / 2 < real (a mod b) / real b"
      using assms by (simp add: field_simps)
    finally show ?thesis .
  qed
  show ?thesis
    unfolding round_half_even_def Let_def f fr 1 2 ..
qed

lemma round_half_even_ratio:
  assumes "0 < b" and "0 < b'" and "real a / real b = real a' / real b'"
  shows "round_half_even a b = round_half_even a' b'"
  unfolding round_half_even_real[OF assms(1)] round_half_even_real[OF assms(2)] assms(3) ..

lemma round_half_even_exact: "round_half_even r (Suc 0) = r"
  by (simp add: round_half_even_def)

lemma round_half_even_le:
  assumes "0 < b" and "a \<le> B * b"
  shows "round_half_even a b \<le> B"
proof (cases "a = B * b")
  case True
  then show ?thesis using assms(1) by (simp add: round_half_even_def)
next
  case False
  with assms(2) have "a < B * b" by simp
  then have "a div b < B" using assms(1) by (simp add: less_mult_imp_div_less)
  then show ?thesis by (simp add: round_half_even_def Let_def)
qed

lemma round_half_even_ge:
  assumes "0 < b" and "B * b \<le> a"
  shows "B \<le> round_half_even a b"
proof -
  have "B \<le> a div b" using assms by (simp add: less_eq_div_iff_mult_less_eq)
  then show ?thesis by (simp add: round_half_even_def Let_def)
qed

lemma strip2_odd: "odd m \<Longrightarrow> strip2 (m * 2 ^ j) q = (m, q + int j)"
proof (induction j arbitrary: q)
  case 0
  then show ?case by (subst strip2.simps) simp
next
  case (Suc j)
  have "strip2 (m * 2 ^ Suc j) q = strip2 (m * 2 ^ j) (q + 1)"
    using Suc.prems by (subst strip2.simps) (auto elim: oddE)
  also have "\<dots> = (m, q + 1 + int j)" using Suc by simp
  finally show ?case by simp
qed

lemma strip2_result:
  assumes "0 < r" and "strip2 r q = (m, e)"
  shows "odd m \<and> q \<le> e \<and> r = m * 2 ^ nat (e - q)"
  using assms
proof (induction r q rule: strip2.induct)
  case (1 r q)
  show ?case
  proof (cases "even r")
    case False
    with 1(3) have "m = r" "e = q" by (subst (asm) strip2.simps, simp)+
    with False show ?thesis by simp
  next
    case True
    with 1(2) have c: "r \<noteq> 0 \<and> even r" by simp
    have s: "strip2 (r div 2) (q + 1) = (m, e)"
      using 1(3) c by (subst (asm) strip2.simps) simp
    have pos: "0 < r div 2" using c by (auto elim: evenE)
    from 1(1)[OF c pos s] have o: "odd m" and le: "q + 1 \<le> e"
      and v: "r div 2 = m * 2 ^ nat (e - (q + 1))" by auto
    have "nat (e - q) = Suc (nat (e - (q + 1)))" using le by simp
    then have "m * 2 ^ nat (e - q) = 2 * (r div 2)" using v by simp
    also have "\<dots> = r" using True by simp
    finally show ?thesis using o le by simp
  qed
qed

lemma bit_length_le: "m < 2 ^ k \<Longrightarrow> bit_length m \<le> k"
proof (cases "m = 0")
  case True
  then show ?thesis by (simp add: bit_length.simps)
next
  case False
  assume k: "m < 2 ^ k"
  from bit_length_bounds[of m] False have "(2::nat) ^ (bit_length m - 1) \<le> m" by simp
  from this k have "(2::nat) ^ (bit_length m - 1) < 2 ^ k" by (rule le_less_trans)
  then have "bit_length m - 1 < k" by (simp only: power_strict_increasing_iff one_less_numeral_iff semiring_norm)
  then show ?thesis by simp
qed

lemma to_double_ratio:
  assumes "0 < n" and "0 < d" and "0 < n'" and "0 < d'"
    and r: "real n / real d = real n' / real d'"
  shows "to_double neg n d = to_double neg n' d'"
proof -
  have f: "floor_log2 n d = floor_log2 n' d'"
    using assms by (rule floor_log2_ratio)
  define q where "q = max (- 1074) (floor_log2 n' d' - 52)"
  obtain a b where s: "scale2 n d q = (a, b)" by (cases "scale2 n d q")
  obtain a' b' where s': "scale2 n' d' q = (a', b')" by (cases "scale2 n' d' q")
  from scale2_value[OF assms(2) s] scale2_value[OF assms(4) s'] r
  have "0 < b" "0 < b'" "real a / real b = real a' / real b'" by simp_all
  then have "round_half_even a b = round_half_even a' b'" by (rule round_half_even_ratio)
  then show ?thesis
    using assms(1,3) by (simp add: to_double_def f q_def[symmetric] s s')
qed

lemma powi2_nat: "0 \<le> k \<Longrightarrow> (2::real) powi k = 2 ^ nat k"
  by (simp add: power_int_def)

lemma real_pow2: "real ((2::nat) ^ k) = 2 ^ k"
  by simp

lemma to_double_unfold:
  assumes "q = max (- 1074) (floor_log2 n d - 52)" and "scale2 n d q = (a, b)"
    and "r = round_half_even a b"
  shows "to_double neg n d =
     (if n = 0 then NFinite neg 0 0
      else if r = 0 then NFinite neg 0 0
      else if 971 < q \<or> (q = 971 \<and> r = 2 ^ 53) then NInfinity neg
      else (case strip2 r q of (m, e) \<Rightarrow> NFinite neg m e))"
  using assms by (simp add: to_double_def Let_def)

lemma to_double_exact:
  assumes dbl: "is_double m e" and n: "0 < n" and d: "0 < d"
    and v: "real n / real d = real m * 2 powi e"
  shows "to_double neg n d = NFinite neg m e"
proof -
  define L where "L = bit_length m"
  from dbl have odd: "odd m" and L53: "L \<le> 53" and e1: "- 1074 \<le> e" and e2: "e + int L \<le> 1024"
    by (simp_all add: is_double_def L_def)
  from odd have m: "0 < m" by (cases m) auto
  from bit_length_bounds[OF m] have lo: "2 ^ (L - 1) \<le> m" and hi: "m < 2 ^ L"
    by (simp_all add: L_def)
  have L1: "0 < L" using m by (simp add: L_def bit_length_pos)
  have pe: "(0::real) < 2 powi e" by simp
  have fl: "floor_log2 n d = e + int L - 1"
  proof (rule floor_log2_eq[OF n d])
    have "(2::real) powi (e + int L - 1) = 2 powi (int L - 1) * 2 powi e"
      by (subst power_int_add[symmetric]) (simp_all add: algebra_simps)
    also have "(2::real) powi (int L - 1) = 2 ^ (L - 1)"
      using L1 by (simp add: powi2_nat nat_diff_distrib')
    also have "(2::real) ^ (L - 1) * 2 powi e \<le> real m * 2 powi e"
    proof (rule mult_right_mono)
      show "(2::real) ^ (L - 1) \<le> real m" using lo by (metis of_nat_le_iff of_nat_numeral of_nat_power)
      show "(0::real) \<le> 2 powi e" by simp
    qed
    finally show "2 powi (e + int L - 1) \<le> real n / real d" using v by simp
    have "real m * 2 powi e < 2 ^ L * 2 powi e"
    proof (rule mult_strict_right_mono)
      show "real m < 2 ^ L" using hi by (metis of_nat_less_iff of_nat_numeral of_nat_power)
      show "(0::real) < 2 powi e" by simp
    qed
    also have "(2::real) ^ L = 2 powi (int L)" by simp
    also have "(2::real) powi (int L) * 2 powi e = 2 powi (e + int L - 1 + 1)"
      by (subst power_int_add[symmetric]) (simp_all add: algebra_simps)
    finally show "real n / real d < 2 powi (e + int L - 1 + 1)" using v by simp
  qed
  define q where "q = max (- 1074) (floor_log2 n d - 52)"
  have q: "q = max (- 1074) (e + int L - 53)" by (simp add: q_def fl)
  have qe: "q \<le> e" using q L53 e1 by simp
  define j where "j = nat (e - q)"
  define r0 where "r0 = m * 2 ^ j"
  obtain a b where s: "scale2 n d q = (a, b)" by (cases "scale2 n d q")
  from scale2_value[OF d s] have b: "0 < b" and ab: "real a / real b = real n / real d / 2 powi q"
    by auto
  have "real n / real d / 2 powi q = real m * (2 powi e / 2 powi q)" using v by simp
  also have "(2::real) powi e / 2 powi q = 2 powi (e - q)"
    by (rule power_int_diff[symmetric]) simp
  also have "(2::real) powi (e - q) = 2 ^ j" using qe by (simp add: powi2_nat j_def)
  finally have "real a / real b = real r0 / real (Suc 0)"
    using ab by (simp add: r0_def)
  with b have "round_half_even a b = round_half_even r0 (Suc 0)"
    by (intro round_half_even_ratio) simp_all
  then have r: "round_half_even a b = r0" by (simp add: round_half_even_exact)
  have r0: "0 < r0" using m by (simp add: r0_def)
  have q971: "q \<le> 971" using q e2 by simp
  have nover: "\<not> (q = 971 \<and> r0 = 2 ^ 53)"
  proof
    assume c: "q = 971 \<and> r0 = 2 ^ 53"
    with q have "e + int L - 53 = 971" by simp
    with c have "j = 53 - L" by (simp add: j_def)
    with hi have "r0 < 2 ^ L * 2 ^ (53 - L)" by (simp add: r0_def)
    also have "\<dots> = 2 ^ 53" using L53 by (simp add: power_add[symmetric])
    finally show False using c by simp
  qed
  have st: "strip2 r0 q = (m, e)"
    unfolding r0_def using strip2_odd[OF odd, of j q] qe by (simp add: j_def)
  show ?thesis
    using n r0 q971 nover to_double_unfold[OF q_def s r[symmetric], of neg]
    by (simp add: st)
qed

lemma to_double_sign:
  "to_double neg n d = NFinite neg' m e \<Longrightarrow> neg' = neg"
  "to_double neg n d = NInfinity neg' \<Longrightarrow> neg' = neg"
  by (auto simp: to_double_def Let_def split: if_splits prod.splits)

lemma to_double_zero: "to_double neg n d = NFinite neg' 0 e \<Longrightarrow> e = 0"
proof -
  assume a: "to_double neg n d = NFinite neg' 0 e"
  define q where "q = max (- 1074) (floor_log2 n d - 52)"
  obtain a b where s: "scale2 n d q = (a, b)" by (cases "scale2 n d q")
  define r where "r = round_half_even a b"
  note u = to_double_unfold[OF q_def s r_def, of neg]
  show ?thesis
  proof (cases "n = 0 \<or> r = 0")
    case True
    with a[unfolded u] show ?thesis by (auto split: if_splits)
  next
    case False
    obtain m' e' where st: "strip2 r q = (m', e')" by (cases "strip2 r q")
    from False strip2_result[OF _ st] have "odd m'" by simp
    moreover from a[unfolded u] False st have "m' = 0" by (auto split: if_splits)
    ultimately show ?thesis by simp
  qed
qed

lemma to_double_is_double:
  assumes d: "0 < d" and t: "to_double neg n d = NFinite neg' m e" and m: "m \<noteq> 0"
  shows "is_double m e"
proof -
  from t m have n: "0 < n" by (cases "n = 0") (simp_all add: to_double_def)
  define q where "q = max (- 1074) (floor_log2 n d - 52)"
  obtain a b where s: "scale2 n d q = (a, b)" by (cases "scale2 n d q")
  define r where "r = round_half_even a b"
  note u = to_double_unfold[OF q_def s r_def, of neg]
  from t[unfolded u] m n have r0: "0 < r" and nover: "\<not> (971 < q \<or> (q = 971 \<and> r = 2 ^ 53))"
    and st: "strip2 r q = (m, e)"
    by (auto split: if_splits prod.splits)
  from strip2_result[OF r0 st] have odd: "odd m" and qe: "q \<le> e" and rm: "r = m * 2 ^ nat (e - q)"
    by auto
  from scale2_value[OF d s] have b: "0 < b" and ab: "real a / real b = real n / real d / 2 powi q"
    by auto
  from floor_log2_bounds[OF n d] have up: "real n / real d < 2 powi (floor_log2 n d + 1)" by simp
  have "floor_log2 n d + 1 \<le> q + 53" by (simp add: q_def)
  then have "(2::real) powi (floor_log2 n d + 1) \<le> 2 powi (q + 53)" by (rule powi2_mono)
  with up have "real n / real d < 2 powi (q + 53)" by simp
  also have "(2::real) powi (q + 53) = 2 powi q * 2 powi 53" by (rule power_int_add) simp
  also have "(2::real) powi 53 = 2 ^ 53" by (simp add: powi2_nat)
  finally have "real n / real d / 2 powi q < 2 ^ 53"
    by (subst pos_divide_less_eq) (simp_all add: mult.commute)
  with ab have "real a / real b < 2 ^ 53" by simp
  then have "real a < 2 ^ 53 * real b" using b by (simp add: field_simps)
  then have "real a < real (2 ^ 53 * b)" by simp
  then have "a < 2 ^ 53 * b" by (simp only: of_nat_less_iff)
  then have r53: "r \<le> 2 ^ 53" unfolding r_def using b by (intro round_half_even_le) simp_all
  define L where "L = bit_length m"
  from odd have mpos: "0 < m" by (cases m) auto
  from bit_length_bounds[OF mpos] have lo: "2 ^ (L - 1) \<le> m" by (simp add: L_def)
  have L1: "0 < L" using mpos by (simp add: L_def bit_length_pos)
  have mr: "m \<le> r" using rm by simp
  have "m \<noteq> 2 ^ 53" using odd by auto
  with mr r53 have "m < 2 ^ 53" by simp
  then have L53: "L \<le> 53" unfolding L_def by (rule bit_length_le)
  have "2 ^ (L - 1 + nat (e - q)) = 2 ^ (L - 1) * (2::nat) ^ nat (e - q)" by (simp add: power_add)
  also have "\<dots> \<le> m * 2 ^ nat (e - q)" using lo by simp
  finally have le: "2 ^ (L - 1 + nat (e - q)) \<le> r" using rm by simp
  have "e + int L \<le> 1024"
  proof (cases "q = 971")
    case True
    with nover have "r \<noteq> 2 ^ 53" by simp
    with r53 have "r < 2 ^ 53" by simp
    with le have "(2::nat) ^ (L - 1 + nat (e - q)) < 2 ^ 53" by (rule le_less_trans)
    then have "L - 1 + nat (e - q) < 53"
      by (simp only: power_strict_increasing_iff one_less_numeral_iff semiring_norm)
    with True qe L1 show ?thesis by simp
  next
    case False
    with nover have q970: "q \<le> 970" by simp
    from le r53 have "(2::nat) ^ (L - 1 + nat (e - q)) \<le> 2 ^ 53" by (rule le_trans)
    then have "L - 1 + nat (e - q) \<le> 53"
      by (simp only: power_increasing_iff one_less_numeral_iff semiring_norm)
    with q970 qe L1 show ?thesis by simp
  qed
  moreover have "- 1074 \<le> e" using qe by (simp add: q_def)
  ultimately show ?thesis using odd L53 by (simp add: is_double_def L_def)
qed

lemma to_double_overflow:
  assumes n: "0 < n" and d: "0 < d" and big: "2 ^ 1024 * d \<le> n"
  shows "to_double neg n d = NInfinity neg"
proof -
  define q where "q = max (- 1074) (floor_log2 n d - 52)"
  obtain a b where s: "scale2 n d q = (a, b)" by (cases "scale2 n d q")
  define r where "r = round_half_even a b"
  from scale2_value[OF d s] have b: "0 < b" and ab: "real a / real b = real n / real d / 2 powi q"
    by auto
  from floor_log2_bounds[OF n d] have lo: "2 powi (floor_log2 n d) \<le> real n / real d"
    and up: "real n / real d < 2 powi (floor_log2 n d + 1)" by simp_all
  have "real (2 ^ 1024 * d) \<le> real n" using big by (simp only: of_nat_le_iff)
  then have "(2::real) ^ 1024 \<le> real n / real d" using d by (simp add: field_simps)
  with up have lt: "(2::real) powi 1024 < 2 powi (floor_log2 n d + 1)" by simp
  have "1024 < floor_log2 n d + 1"
  proof (rule ccontr)
    assume "\<not> 1024 < floor_log2 n d + 1"
    then have "floor_log2 n d + 1 \<le> 1024" by simp
    then have "(2::real) powi (floor_log2 n d + 1) \<le> 2 powi 1024" by (rule powi2_mono)
    with lt show False by simp
  qed
  then have q972: "971 < q" and qf: "q = floor_log2 n d - 52" by (simp_all add: q_def)
  have "floor_log2 n d = q + 52" using qf by simp
  then have "(2::real) powi (floor_log2 n d) = 2 powi (q + 52)" by (rule arg_cong)
  also have "\<dots> = 2 powi q * 2 powi 52" by (rule power_int_add) simp
  finally have "(2::real) powi (floor_log2 n d) = 2 powi q * 2 ^ 52" by (simp add: powi2_nat)
  with lo have "2 powi q * 2 ^ 52 \<le> real n / real d" by simp
  then have "(2::real) ^ 52 \<le> real n / real d / 2 powi q"
    by (subst pos_le_divide_eq) (simp_all add: mult.commute)
  with ab have "(2::real) ^ 52 \<le> real a / real b" by simp
  then have "2 ^ 52 * real b \<le> real a" using b by (simp add: field_simps)
  then have "real (2 ^ 52 * b) \<le> real a" by simp
  then have "2 ^ 52 * b \<le> a" by (simp only: of_nat_le_iff)
  then have "2 ^ 52 \<le> r" unfolding r_def using b by (intro round_half_even_ge) simp_all
  then have "r \<noteq> 0" by auto
  then show ?thesis
    using n q972 to_double_unfold[OF q_def s r_def, of neg] by simp
qed

subsection \<open>Decimal literals and the shortest digits\<close>

lemma strip10_fixed: "m mod 10 \<noteq> 0 \<Longrightarrow> strip10 m e = (m, e)"
  by (subst strip10.simps) simp

lemma strip10_result:
  assumes "0 < m" and "strip10 m e = (m', e')"
  shows "\<exists>j. m = m' * 10 ^ j \<and> e' = e + int j \<and> 0 < m' \<and> m' mod 10 \<noteq> 0"
  using assms
proof (induction m e rule: strip10.induct)
  case (1 m e)
  show ?case
  proof (cases "m mod 10 = 0")
    case False
    with 1(3) have "m' = m" "e' = e" by (simp_all add: strip10_fixed)
    with False 1(2) show ?thesis by (intro exI[of _ 0]) simp
  next
    case True
    with 1(2) have d: "0 < m div 10" by auto
    have s: "strip10 (m div 10) (e + 1) = (m', e')"
      using 1(3) True 1(2) by (subst (asm) strip10.simps) simp
    from 1(1)[OF _ d s] True 1(2) obtain j where
      j: "m div 10 = m' * 10 ^ j" "e' = e + 1 + int j" "0 < m'" "m' mod 10 \<noteq> 0" by auto
    have "m = m div 10 * 10" using True by auto
    with j have "m = m' * 10 ^ Suc j" by simp
    with j show ?thesis by (intro exI[of _ "Suc j"]) simp
  qed
qed

lemma powi10_nat: "0 \<le> k \<Longrightarrow> (10::real) powi k = 10 ^ nat k"
  by (simp add: power_int_def)

lemma powi10_neg: "k < 0 \<Longrightarrow> (10::real) powi k = 1 / 10 ^ nat (- k)"
  by (simp add: power_int_def power_one_over inverse_eq_divide)

lemma powi2_neg: "k < 0 \<Longrightarrow> (2::real) powi k = 1 / 2 ^ nat (- k)"
  by (simp add: power_int_def power_one_over inverse_eq_divide)

text \<open>The fraction \<open>make_number\<close> hands to \<open>to_double\<close> has the value of the decimal.\<close>

lemma make_number_frac:
  obtains n d where "make_number neg m e = to_double neg n d" and "0 < d"
    and "real n / real d = real m * 10 powi e" and "n = 0 \<longleftrightarrow> m = 0"
proof (cases "0 \<le> e")
  case True
  show ?thesis
  proof (rule that)
    show "make_number neg m e = to_double neg (m * 10 ^ nat e) 1" using True by (simp add: make_number_def)
    show "real (m * 10 ^ nat e) / real 1 = real m * 10 powi e" using True by (simp add: powi10_nat)
  qed simp_all
next
  case False
  show ?thesis
  proof (rule that)
    show "make_number neg m e = to_double neg m (10 ^ nat (- e))" using False by (simp add: make_number_def)
    show "real m / real (10 ^ nat (- e)) = real m * 10 powi e" using False by (simp add: powi10_neg)
  qed simp_all
qed

lemma make_number_zero: "make_number neg 0 e = NFinite neg 0 0"
  by (simp add: make_number_def to_double_def)

lemma make_number_value:
  assumes "0 < m" and "0 < m'" and "real m * 10 powi e = real m' * 10 powi e'"
  shows "make_number neg m e = make_number neg m' e'"
proof -
  obtain n d where 1: "make_number neg m e = to_double neg n d" "0 < d"
    "real n / real d = real m * 10 powi e" "n = 0 \<longleftrightarrow> m = 0"
    by (rule make_number_frac)
  obtain n' d' where 2: "make_number neg m' e' = to_double neg n' d'" "0 < d'"
    "real n' / real d' = real m' * 10 powi e'" "n' = 0 \<longleftrightarrow> m' = 0"
    by (rule make_number_frac)
  have "to_double neg n d = to_double neg n' d'"
    using 1 2 assms by (intro to_double_ratio) simp_all
  with 1 2 show ?thesis by simp
qed

lemma make_number_scale: "make_number neg (m * 10 ^ j) e = make_number neg m (e + int j)"
proof (cases "m = 0")
  case True
  then show ?thesis by (simp add: make_number_zero)
next
  case False
  have "(10::real) powi (e + int j) = 10 powi e * 10 powi (int j)"
    by (rule power_int_add) simp
  then have "real (m * 10 ^ j) * 10 powi e = real m * 10 powi (e + int j)"
    by (simp add: powi10_nat)
  with False show ?thesis by (intro make_number_value) simp_all
qed

lemma make_number_strip10:
  assumes "0 < s" and "strip10 s t = (s', t')"
  shows "make_number neg s' t' = make_number neg s t \<and> 0 < s'"
proof -
  from strip10_result[OF assms] obtain j where "s = s' * 10 ^ j" "t' = t + int j" "0 < s'"
    by auto
  then show ?thesis using make_number_scale[of neg s' j t] by simp
qed

lemma make_number_is_double:
  assumes "make_number neg m e = NFinite neg' m' e'"
  shows "neg' = neg \<and> (if m' = 0 then e' = 0 else is_double m' e')"
proof -
  obtain n d where 1: "make_number neg m e = to_double neg n d" "0 < d"
    by (rule make_number_frac)
  with assms have t: "to_double neg n d = NFinite neg' m' e'" by simp
  from to_double_sign(1)[OF t] to_double_zero[of neg n d neg' e'] to_double_is_double[OF 1(2) t] t
  show ?thesis by auto
qed

lemma exact_decimal_value:
  assumes "exact_decimal m e = (s, t)"
  shows "real s * 10 powi t = real m * 2 powi e \<and> (s = 0 \<longleftrightarrow> m = 0)"
proof (cases "0 \<le> e")
  case True
  with assms have "s = m * 2 ^ nat e" "t = 0" by (auto simp: exact_decimal_def)
  with True show ?thesis by (simp add: powi2_nat)
next
  case False
  with assms have s: "s = m * 5 ^ nat (- e)" and t: "t = e" by (auto simp: exact_decimal_def)
  have "(10::real) ^ nat (- e) = 5 ^ nat (- e) * 2 ^ nat (- e)"
    by (simp add: power_mult_distrib[symmetric])
  then have "real s * 10 powi t = real m * 2 powi e"
    using False by (simp add: s t powi10_neg powi2_neg)
  with s show ?thesis by simp
qed

lemma make_number_exact:
  assumes "is_double m e" and "exact_decimal m e = (s, t)"
  shows "make_number neg s t = NFinite neg m e"
proof -
  from assms(1) have m: "0 < m" by (cases m) (auto simp: is_double_def)
  from exact_decimal_value[OF assms(2)] m have v: "real s * 10 powi t = real m * 2 powi e"
    and s: "0 < s" by auto
  obtain n d where 1: "make_number neg s t = to_double neg n d" "0 < d"
    "real n / real d = real s * 10 powi t" "n = 0 \<longleftrightarrow> s = 0"
    by (rule make_number_frac)
  from 1 s v have "to_double neg n d = NFinite neg m e"
    by (intro to_double_exact[OF assms(1)]) simp_all
  with 1 show ?thesis by simp
qed

lemma first_candidate_Some:
  "first_candidate f n = Some c \<Longrightarrow> \<exists>j. f j = Some c"
  by (induction n) (auto split: option.splits)

lemma candidate_Some:
  assumes "candidate neg m e s t j = Some (c, u)"
  shows "make_number neg c u = NFinite neg m e"
  using assms by (auto simp: candidate_def Let_def split: if_splits)

lemma shortest_decimal_pos:
  assumes "0 < m" and "shortest_decimal neg m e = (c, u)"
  shows "0 < c"
proof (cases "exact_decimal m e")
  case (Pair s t)
  show ?thesis
  proof (cases "first_candidate (candidate neg m e s t) (length (show_nat s) - 1)")
    case None
    with assms Pair have "c = s" by (simp add: shortest_decimal_def)
    with exact_decimal_value[OF Pair] assms(1) show ?thesis by simp
  next
    case (Some x)
    with assms Pair have "first_candidate (candidate neg m e s t) (length (show_nat s) - 1) = Some (c, u)"
      by (simp add: shortest_decimal_def)
    from first_candidate_Some[OF this] obtain j where "candidate neg m e s t j = Some (c, u)" ..
    from candidate_Some[OF this] have "make_number neg c u = NFinite neg m e" .
    with assms(1) show ?thesis by (cases "c = 0") (simp_all add: make_number_zero)
  qed
qed

lemma shortest_decimal_rounds:
  assumes "is_double m e" and "shortest_decimal neg m e = (c, u)"
  shows "make_number neg c u = NFinite neg m e"
proof (cases "exact_decimal m e")
  case (Pair s t)
  show ?thesis
  proof (cases "first_candidate (candidate neg m e s t) (length (show_nat s) - 1)")
    case None
    with assms Pair have "c = s" "u = t" by (simp_all add: shortest_decimal_def)
    with make_number_exact[OF assms(1) Pair] show ?thesis by simp
  next
    case (Some x)
    with assms Pair have "first_candidate (candidate neg m e s t) (length (show_nat s) - 1) = Some (c, u)"
      by (simp add: shortest_decimal_def)
    from first_candidate_Some[OF this] obtain j where "candidate neg m e s t j = Some (c, u)" ..
    then show ?thesis by (rule candidate_Some)
  qed
qed

section \<open>Reading a serialized value\<close>

subsection \<open>Strings\<close>

lemma hex_val_hex_digit: "d < 16 \<Longrightarrow> hex_val (hex_digit d) = Some d"
  by (auto simp: hex_val_def hex_digit_def)

lemma hex_recompose:
  assumes "c < 65536"
  shows "((c div 4096 mod 16 * 16 + c div 256 mod 16) * 16 + c div 16 mod 16) * 16 + c mod 16 = (c::nat)"
proof -
  have a: "c div 4096 mod 16 = c div 4096"
    using assms by (simp add: less_mult_imp_div_less)
  have b1: "c div 256 div 16 = c div 4096" by (simp add: div_mult2_eq[symmetric])
  have d1: "c div 16 div 16 = c div 256" by (simp add: div_mult2_eq[symmetric])
  have b: "c div 4096 * 16 + c div 256 mod 16 = c div 256"
    by (rule div_mult_mod_eq[of "c div 256" 16, unfolded b1])
  have d: "c div 256 * 16 + c div 16 mod 16 = c div 16"
    by (rule div_mult_mod_eq[of "c div 16" 16, unfolded d1])
  have e: "c div 16 * 16 + c mod 16 = c"
    by (rule div_mult_mod_eq)
  show ?thesis
    unfolding a b d e ..
qed

lemma hex4_digits:
  assumes "c < 65536"
  shows "hex4 (hex_digit (c div 4096 mod 16) # hex_digit (c div 256 mod 16)
               # hex_digit (c div 16 mod 16) # hex_digit (c mod 16) # rest) = Some c"
proof -
  have "hex4 (hex_digit (c div 4096 mod 16) # hex_digit (c div 256 mod 16)
               # hex_digit (c div 16 mod 16) # hex_digit (c mod 16) # rest) =
     Some (((c div 4096 mod 16 * 16 + c div 256 mod 16) * 16 + c div 16 mod 16) * 16 + c mod 16)"
    by (simp only: hex4_def hex_val_hex_digit list.case prod.case option.case mod_less_divisor
        zero_less_numeral)
  then show ?thesis by (simp only: hex_recompose[OF assms])
qed

lemma parse_chars_unicode:
  assumes "c < 65536"
  shows "parse_chars (unicode_escape c @ rest) =
     (case parse_chars rest of None \<Rightarrow> None | Some (s, r) \<Rightarrow> Some (c # s, r))"
  by (simp add: unicode_escape_def parse_chars.simps hex4_digits[OF assms])

lemma parse_chars_short:
  assumes "unescape e = Some c" and "e \<noteq> 117"
  shows "parse_chars (92 # e # rest) =
     (case parse_chars rest of None \<Rightarrow> None | Some (s, r) \<Rightarrow> Some (c # s, r))"
  using assms by (subst parse_chars.simps) simp

lemma parse_chars_plain:
  assumes "c \<noteq> 34" and "c \<noteq> 92" and "32 \<le> c"
  shows "parse_chars (c # rest) =
     (case parse_chars rest of None \<Rightarrow> None | Some (s, r) \<Rightarrow> Some (c # s, r))"
  using assms by (subst parse_chars.simps) simp

lemma parse_chars_quote_unit:
  assumes "c < 65536 \<or> (\<not> is_high_surrogate c \<and> \<not> is_low_surrogate c)"
  shows "parse_chars (quote_unit c @ rest) =
     (case parse_chars rest of None \<Rightarrow> None | Some (s, r) \<Rightarrow> Some (c # s, r))"
proof -
  let ?short = "c = 8 \<or> c = 9 \<or> c = 10 \<or> c = 12 \<or> c = 13 \<or> c = 34 \<or> c = 92"
  let ?esc = "c < 32 \<or> is_high_surrogate c \<or> is_low_surrogate c"
  consider (short) ?short | (esc) "\<not> ?short" ?esc | (plain) "\<not> ?short" "\<not> ?esc"
    by blast
  then show ?thesis
  proof cases
    case short
    then show ?thesis
      by (elim disjE; clarsimp simp: quote_unit_def parse_chars_short unescape_def)
  next
    case esc
    then have "c < 65536"
      using assms by auto
    with esc show ?thesis
      by (simp add: quote_unit_def parse_chars_unicode)
  next
    case plain
    then show ?thesis
      by (simp add: quote_unit_def parse_chars_plain)
  qed
qed

lemma surrogate_bound: "is_high_surrogate c \<or> is_low_surrogate c \<Longrightarrow> c < 65536 \<and> 32 \<le> c \<and> c \<noteq> 34 \<and> c \<noteq> 92"
  by (auto simp: is_high_surrogate_def is_low_surrogate_def)

lemma parse_chars_quote: "parse_chars (quote_chars s @ 34 # rest) = Some (s, rest)"
proof (induction s rule: quote_chars.induct)
  case 1
  show ?case by (simp add: parse_chars.simps)
next
  case (2 c)
  have "c < 65536 \<or> (\<not> is_high_surrogate c \<and> \<not> is_low_surrogate c)"
    using surrogate_bound[of c] by blast
  then show ?case
    by (simp add: parse_chars_quote_unit) (simp add: parse_chars.simps)
next
  case (3 c d cs)
  show ?case
  proof (cases "is_high_surrogate c \<and> is_low_surrogate d")
    case True
    with surrogate_bound[of c] surrogate_bound[of d] 3 show ?thesis
      by (simp add: parse_chars_plain)
  next
    case False
    have "c < 65536 \<or> (\<not> is_high_surrogate c \<and> \<not> is_low_surrogate c)"
      using surrogate_bound[of c] by blast
    with False 3 show ?thesis
      by (auto simp: parse_chars_quote_unit)
  qed
qed

lemma hex_digit_ge32: "32 \<le> hex_digit d"
  by (simp add: hex_digit_def)

lemma unicode_escape_ge32: "x \<in> set (unicode_escape c) \<Longrightarrow> 32 \<le> x"
  using hex_digit_ge32 by (auto simp: unicode_escape_def)

lemma quote_unit_ge32: "x \<in> set (quote_unit c) \<Longrightarrow> 32 \<le> x"
  using unicode_escape_ge32[of x c]
  by (auto simp: quote_unit_def split: if_splits)

lemma quote_chars_ge32: "x \<in> set (quote_chars s) \<Longrightarrow> 32 \<le> x"
proof (induction s arbitrary: x rule: quote_chars.induct)
  case 1
  then show ?case by simp
next
  case (2 c)
  then show ?case by (simp add: quote_unit_ge32)
next
  case (3 c d cs)
  show ?case
  proof (cases "is_high_surrogate c \<and> is_low_surrogate d")
    case True
    with 3 surrogate_bound[of c] surrogate_bound[of d] show ?thesis by auto
  next
    case False
    with 3 show ?thesis by (auto simp: quote_unit_ge32)
  qed
qed

lemma parse_chars_quoted: "parse_chars (tl (quote s) @ rest) = Some (s, rest)"
  by (simp add: quote_def parse_chars_quote)

lemma quote_ge32: "x \<in> set (quote s) \<Longrightarrow> 32 \<le> x"
  by (auto simp: quote_def quote_chars_ge32)

subsection \<open>Numbers\<close>

lemma digits_fold:
  "foldl (\<lambda>a c. 10 * a + (c - 48)) (a::nat) ys =
     a * 10 ^ length ys + foldl (\<lambda>a c. 10 * a + (c - 48)) 0 ys"
proof -
  define f where "f = (\<lambda>(a::nat) (c::nat). 10 * a + (c - 48))"
  have "foldl f a ys = a * 10 ^ length ys + foldl f 0 ys"
  proof (induction ys arbitrary: a)
    case Nil
    show ?case by simp
  next
    case (Cons y ys)
    have 1: "foldl f (f a y) ys = f a y * 10 ^ length ys + foldl f 0 ys" by (rule Cons.IH)
    have 2: "foldl f (f 0 y) ys = f 0 y * 10 ^ length ys + foldl f 0 ys" by (rule Cons.IH)
    have 3: "f a y = a * 10 + f 0 y" by (simp add: f_def)
    have "foldl f a (y # ys) = foldl f (f a y) ys" by simp
    also have "\<dots> = f a y * 10 ^ length ys + foldl f 0 ys" by (rule 1)
    also have "\<dots> = (a * 10 + f 0 y) * 10 ^ length ys + foldl f 0 ys" by (simp only: 3)
    also have "\<dots> = a * 10 ^ length (y # ys) + (f 0 y * 10 ^ length ys + foldl f 0 ys)"
      by (simp add: algebra_simps)
    also have "f 0 y * 10 ^ length ys + foldl f 0 ys = foldl f 0 (y # ys)"
      using 2 by simp
    finally show ?case .
  qed
  then show ?thesis by (simp add: f_def)
qed

lemma digits_val_append:
  "digits_val (xs @ ys) = digits_val xs * 10 ^ length ys + digits_val ys"
  unfolding digits_val_def foldl_append by (rule digits_fold)

lemma digits_val_single: "digits_val [c] = c - 48"
  by (simp add: digits_val_def)

lemma digits_val_zeros: "digits_val (replicate n 48) = 0"
  by (induction n) (simp_all add: digits_val_def)

lemma digits_val_nil: "digits_val [] = 0"
  by (simp add: digits_val_def)

lemma show_nat_nonempty: "show_nat n \<noteq> []"
  by (subst show_nat.simps) simp

lemma show_nat_hd: "0 < n \<Longrightarrow> hd (show_nat n) \<noteq> 48"
proof (induction n rule: show_nat.induct)
  case (1 n)
  show ?case
  proof (cases "n < 10")
    case True
    with 1(2) show ?thesis by (simp add: show_nat.simps[of n])
  next
    case False
    then have "0 < n div 10" by simp
    with 1(1) False have "hd (show_nat (n div 10)) \<noteq> 48" by simp
    with False show ?thesis
      by (simp add: show_nat.simps[of n] show_nat_nonempty)
  qed
qed

lemma digits_val_show_nat: "digits_val (show_nat n) = n"
proof (induction n rule: show_nat.induct)
  case (1 n)
  show ?case
  proof (cases "n < 10")
    case True
    then show ?thesis by (simp add: show_nat.simps[of n] digits_val_single)
  next
    case False
    with 1 show ?thesis
      by (simp add: show_nat.simps[of n] digits_val_append digits_val_single)
  qed
qed

lemma takeWhile_digits:
  assumes "\<forall>c \<in> set ds. is_digit c" and "rest = [] \<or> \<not> is_digit (hd rest)"
  shows "takeWhile is_digit (ds @ rest) = ds" and "dropWhile is_digit (ds @ rest) = rest"
proof -
  have t: "takeWhile is_digit rest = []" and d: "dropWhile is_digit rest = rest"
    using assms(2) by (cases rest; simp)+
  show "takeWhile is_digit (ds @ rest) = ds"
    using assms(1) by (simp add: t)
  show "dropWhile is_digit (ds @ rest) = rest"
    using assms(1) by (simp add: d)
qed

lemma parse_int_digits:
  assumes "ds \<noteq> []" and "\<forall>c \<in> set ds. is_digit c" and "hd ds \<noteq> 48"
    and "r = [] \<or> \<not> is_digit (hd r)"
  shows "parse_int (ds @ r) = Some (ds, r)"
proof -
  from assms(1) obtain c cs where ds: "ds = c # cs" by (cases ds) auto
  with assms(2,3) have c: "is_digit c" "c \<noteq> 48" by auto
  have "takeWhile is_digit (ds @ r) = ds" "dropWhile is_digit (ds @ r) = r"
    using takeWhile_digits[OF assms(2,4)] by auto
  then show ?thesis
    using c by (simp add: parse_int_def ds)
qed

lemma parse_int_zero: "parse_int (48 # r) = Some ([48], r)"
  by (simp add: parse_int_def)

lemma parse_frac_none: "r = [] \<or> hd r \<noteq> 46 \<Longrightarrow> parse_frac r = Some ([], r)"
  by (cases r) (auto simp: parse_frac_def)

lemma parse_frac_digits:
  assumes "fs \<noteq> []" and "\<forall>c \<in> set fs. is_digit c" and "r = [] \<or> \<not> is_digit (hd r)"
  shows "parse_frac (46 # fs @ r) = Some (fs, r)"
  using takeWhile_digits[OF assms(2,3)] assms(1) by (simp add: parse_frac_def)

lemma parse_exp_none: "r = [] \<or> (hd r \<noteq> 101 \<and> hd r \<noteq> 69) \<Longrightarrow> parse_exp r = Some (0, r)"
  by (cases r) (auto simp: parse_exp_def)

lemma parse_exp_digits_show:
  assumes "r = [] \<or> \<not> is_digit (hd r)"
  shows "parse_exp_digits sg (show_nat x @ r) = Some ((if sg then - int x else int x), r)"
proof -
  have d: "\<forall>c \<in> set (show_nat x). is_digit c" by (simp add: show_nat_digits)
  show ?thesis
    using takeWhile_digits[OF d assms] show_nat_nonempty[of x]
    by (simp add: parse_exp_digits_def digits_val_show_nat)
qed

lemma parse_exp_plus:
  assumes "r = [] \<or> \<not> is_digit (hd r)"
  shows "parse_exp (101 # 43 # show_nat x @ r) = Some (int x, r)"
  using parse_exp_digits_show[OF assms, of False x] by (simp add: parse_exp_def)

lemma parse_exp_minus:
  assumes "r = [] \<or> \<not> is_digit (hd r)"
  shows "parse_exp (101 # 45 # show_nat x @ r) = Some (- int x, r)"
  using parse_exp_digits_show[OF assms, of True x] by (simp add: parse_exp_def)

lemma parse_unsigned_parts:
  assumes "parse_int s = Some (ip, s1)" and "parse_frac s1 = Some (fp, s2)"
    and "parse_exp s2 = Some (ex, s3)"
  shows "parse_unsigned neg s =
     Some (make_number neg (digits_val (ip @ fp)) (ex - int (length fp)), s3)"
  using assms by (simp add: parse_unsigned_def)

lemma take_digits: "\<forall>c \<in> set ds. is_digit c \<Longrightarrow> \<forall>c \<in> set (take n ds). is_digit c"
  by (auto dest: in_set_takeD)

lemma drop_digits: "\<forall>c \<in> set ds. is_digit c \<Longrightarrow> \<forall>c \<in> set (drop n ds). is_digit c"
  by (auto dest: in_set_dropD)

lemma not_digit_46: "\<not> is_digit 46" and not_digit_101: "\<not> is_digit 101"
  by (simp_all add: is_digit_def)

lemma parse_layout:
  assumes m: "0 < m" and rest: "num_end rest"
  shows "parse_unsigned neg (layout_number (show_nat m) e @ rest) = Some (make_number neg m e, rest)"
proof -
  define ds where "ds = show_nat m"
  define k where "k = int (length ds)"
  define n where "n = k + e"
  have dig: "\<forall>c \<in> set ds. is_digit c" by (simp add: ds_def show_nat_digits)
  have ne: "ds \<noteq> []" by (simp add: ds_def show_nat_nonempty)
  have hd: "hd ds \<noteq> 48" using m by (simp add: ds_def show_nat_hd)
  have val: "digits_val ds = m" by (simp add: ds_def digits_val_show_nat)
  have kpos: "0 < k" using ne by (simp add: k_def)
  have r1: "rest = [] \<or> \<not> is_digit (hd rest)" and r2: "rest = [] \<or> hd rest \<noteq> 46"
    and r3: "rest = [] \<or> (hd rest \<noteq> 101 \<and> hd rest \<noteq> 69)"
    using rest by (auto simp: num_end_def)
  consider (A) "k \<le> n" "n \<le> 21"
    | (B) "\<not> (k \<le> n \<and> n \<le> 21)" "0 < n" "n \<le> 21"
    | (C) "\<not> (k \<le> n \<and> n \<le> 21)" "\<not> (0 < n \<and> n \<le> 21)" "- 6 < n" "n \<le> 0"
    | (D) "\<not> (k \<le> n \<and> n \<le> 21)" "\<not> (0 < n \<and> n \<le> 21)" "\<not> (- 6 < n \<and> n \<le> 0)"
    by blast
  then show ?thesis
  proof cases
    case A
    then have e0: "0 \<le> e" by (simp add: n_def)
    let ?z = "replicate (nat e) 48"
    have "layout_number ds e = ds @ replicate (nat (n - k)) 48"
      unfolding layout_number_def Let_def n_def k_def
      by (simp only: A[unfolded n_def k_def] if_True simp_thms)
    then have lay: "layout_number ds e = ds @ ?z" by (simp add: n_def)
    have dz: "\<forall>c \<in> set (ds @ ?z). is_digit c" using dig by (auto simp: is_digit_def)
    have 1: "parse_int ((ds @ ?z) @ rest) = Some (ds @ ?z, rest)"
      using ne dz hd r1 by (intro parse_int_digits) auto
    have 2: "parse_frac rest = Some ([], rest)" using r2 by (rule parse_frac_none)
    have 3: "parse_exp rest = Some (0, rest)" using r3 by (rule parse_exp_none)
    have "parse_unsigned neg ((ds @ ?z) @ rest) =
        Some (make_number neg (digits_val ((ds @ ?z) @ [])) (0 - int (length ([]::jstring))), rest)"
      using 1 2 3 by (rule parse_unsigned_parts)
    also have "digits_val ((ds @ ?z) @ []) = m * 10 ^ nat e"
      by (simp add: digits_val_append val digits_val_zeros)
    also have "make_number neg (m * 10 ^ nat e) (0 - int (length ([]::jstring))) = make_number neg m e"
      using e0 by (simp add: make_number_scale)
    finally show ?thesis by (simp add: lay ds_def[symmetric])
  next
    case B
    then have nk: "n < k" and nk': "\<not> k \<le> n" by auto
    let ?a = "take (nat n) ds" and ?b = "drop (nat n) ds"
    have lay: "layout_number ds e = ?a @ [46] @ ?b"
      unfolding layout_number_def Let_def n_def k_def
      by (simp only: nk'[unfolded n_def k_def] B(2,3)[unfolded n_def k_def]
          if_True if_False simp_thms)
    have a_ne: "?a \<noteq> []" using B ne by simp
    have b_ne: "?b \<noteq> []" using nk B by (simp add: k_def)
    have hda: "hd ?a \<noteq> 48" using hd B by simp
    have 1: "parse_int (?a @ (46 # ?b @ rest)) = Some (?a, 46 # ?b @ rest)"
      using a_ne take_digits[OF dig] hda by (intro parse_int_digits) (auto simp: not_digit_46)
    have 2: "parse_frac (46 # ?b @ rest) = Some (?b, rest)"
      using b_ne drop_digits[OF dig] r1 by (intro parse_frac_digits) auto
    have 3: "parse_exp rest = Some (0, rest)" using r3 by (rule parse_exp_none)
    have "parse_unsigned neg (?a @ (46 # ?b @ rest)) =
        Some (make_number neg (digits_val (?a @ ?b)) (0 - int (length ?b)), rest)"
      using 1 2 3 by (rule parse_unsigned_parts)
    also have "digits_val (?a @ ?b) = m" by (simp add: val)
    also have "0 - int (length ?b) = e" using B nk by (simp add: n_def k_def)
    finally show ?thesis by (simp add: lay ds_def[symmetric])
  next
    case C
    have nk': "\<not> k \<le> n" and np: "\<not> 0 < n" using C kpos by auto
    let ?z = "replicate (nat (- n)) 48"
    have lay: "layout_number ds e = [48, 46] @ ?z @ ds"
      unfolding layout_number_def Let_def n_def k_def
      by (simp only: nk'[unfolded n_def k_def] np[unfolded n_def k_def] C(3,4)[unfolded n_def k_def]
          if_True if_False simp_thms)
    have dz: "\<forall>c \<in> set (?z @ ds). is_digit c" using dig by (auto simp: is_digit_def)
    have 1: "parse_int (48 # (46 # (?z @ ds) @ rest)) = Some ([48], 46 # (?z @ ds) @ rest)"
      by (rule parse_int_zero)
    have 2: "parse_frac (46 # (?z @ ds) @ rest) = Some (?z @ ds, rest)"
      using ne dz r1 by (intro parse_frac_digits) auto
    have 3: "parse_exp rest = Some (0, rest)" using r3 by (rule parse_exp_none)
    have "parse_unsigned neg (48 # (46 # (?z @ ds) @ rest)) =
        Some (make_number neg (digits_val ([48] @ (?z @ ds))) (0 - int (length (?z @ ds))), rest)"
      using 1 2 3 by (rule parse_unsigned_parts)
    also have "digits_val ([48] @ (?z @ ds)) = m"
      using digits_val_append[of "48 # ?z" ds] digits_val_zeros[of "Suc (nat (- n))"]
      by (simp add: val)
    also have "0 - int (length (?z @ ds)) = e" using C by (simp add: n_def k_def)
    finally show ?thesis by (simp add: lay ds_def[symmetric])
  next
    case D
    let ?x = "nat \<bar>n - 1\<bar>"
    let ?sg = "if 0 \<le> n - 1 then [43] else [45::nat]"
    let ?mant = "if length ds = 1 then ds else take 1 ds @ [46] @ drop 1 ds"
    have lay: "layout_number ds e = ?mant @ [101] @ ?sg @ show_nat ?x"
      unfolding layout_number_def Let_def n_def k_def
      by (simp only: D[unfolded n_def k_def] if_True if_False simp_thms)
    have 3: "parse_exp (101 # ?sg @ show_nat ?x @ rest) = Some (n - 1, rest)"
    proof (cases "0 \<le> n - 1")
      case True
      then show ?thesis using parse_exp_plus[OF r1, of ?x] by simp
    next
      case False
      then show ?thesis using parse_exp_minus[OF r1, of ?x] by simp
    qed
    show ?thesis
    proof (cases "length ds = 1")
      case True
      have 1: "parse_int (ds @ (101 # ?sg @ show_nat ?x @ rest)) =
          Some (ds, 101 # ?sg @ show_nat ?x @ rest)"
        using ne dig hd by (intro parse_int_digits) (auto simp: not_digit_101)
      have 2: "parse_frac (101 # ?sg @ show_nat ?x @ rest) = Some ([], 101 # ?sg @ show_nat ?x @ rest)"
        by (rule parse_frac_none) simp
      have "parse_unsigned neg (ds @ (101 # ?sg @ show_nat ?x @ rest)) =
          Some (make_number neg (digits_val (ds @ [])) (n - 1 - int (length ([]::jstring))), rest)"
        using 1 2 3 by (rule parse_unsigned_parts)
      also have "digits_val (ds @ []) = m" by (simp add: val)
      also have "n - 1 - int (length ([]::jstring)) = e" using True by (simp add: n_def k_def)
      finally show ?thesis using True by (simp add: lay ds_def[symmetric])
    next
      case False
      let ?a = "take 1 ds" and ?b = "drop 1 ds"
      have b_ne: "?b \<noteq> []" using False ne by (cases ds) auto
      have a_ne: "?a \<noteq> []" using ne by simp
      have hda: "hd ?a \<noteq> 48" using hd by simp
      have 1: "parse_int (?a @ (46 # ?b @ (101 # ?sg @ show_nat ?x @ rest))) =
          Some (?a, 46 # ?b @ (101 # ?sg @ show_nat ?x @ rest))"
        using a_ne take_digits[OF dig] hda by (intro parse_int_digits) (auto simp: not_digit_46)
      have 2: "parse_frac (46 # ?b @ (101 # ?sg @ show_nat ?x @ rest)) =
          Some (?b, 101 # ?sg @ show_nat ?x @ rest)"
        using b_ne drop_digits[OF dig] by (intro parse_frac_digits) (auto simp: not_digit_101)
      have "parse_unsigned neg (?a @ (46 # ?b @ (101 # ?sg @ show_nat ?x @ rest))) =
          Some (make_number neg (digits_val (?a @ ?b)) (n - 1 - int (length ?b)), rest)"
        using 1 2 3 by (rule parse_unsigned_parts)
      also have "digits_val (?a @ ?b) = m" by (simp add: val)
      also have "n - 1 - int (length ?b) = e" using ne by (cases ds) (simp_all add: n_def k_def)
      finally show ?thesis using False by (simp add: lay ds_def[symmetric])
    qed
  qed
qed

lemma parse_unsigned_hd:
  assumes "parse_unsigned neg s = Some r"
  shows "s \<noteq> [] \<and> is_digit (hd s)"
  using assms
  by (cases s) (auto simp: parse_unsigned_def parse_int_def is_digit_def split: if_splits option.splits)

lemma layout_hd:
  assumes "0 < m"
  shows "layout_number (show_nat m) e \<noteq> [] \<and> is_digit (hd (layout_number (show_nat m) e))"
proof -
  have "parse_unsigned False (layout_number (show_nat m) e @ []) = Some (make_number False m e, [])"
    using assms by (intro parse_layout) (simp_all add: num_end_def)
  then show ?thesis using parse_unsigned_hd by fastforce
qed

lemma number_to_string_finite:
  assumes "0 < m"
  obtains s t where "0 < s"
    and "number_to_string (NFinite neg m e) = (if neg then [45] else []) @ layout_number (show_nat s) t"
    and "reread neg m e = make_number neg s t"
proof -
  obtain c u where sd: "shortest_decimal neg m e = (c, u)" by (cases "shortest_decimal neg m e")
  obtain s t where st: "strip10 c u = (s, t)" by (cases "strip10 c u")
  from shortest_decimal_pos[OF assms sd] have c: "0 < c" .
  from strip10_result[OF c st] have s: "0 < s" by auto
  show ?thesis
  proof (rule that[OF s])
    show "number_to_string (NFinite neg m e) =
        (if neg then [45] else []) @ layout_number (show_nat s) t"
      using assms by (simp add: number_to_string_def sd st)
    show "reread neg m e = make_number neg s t"
      using assms by (simp add: reread_def sd st)
  qed
qed

lemma parse_number_finite:
  assumes "num_end rest"
  shows "parse_number (number_to_string (NFinite neg m e) @ rest) = Some (reread neg m e, rest)"
proof (cases "m = 0")
  case True
  have r2: "rest = [] \<or> hd rest \<noteq> 46" and r3: "rest = [] \<or> (hd rest \<noteq> 101 \<and> hd rest \<noteq> 69)"
    using assms by (auto simp: num_end_def)
  have "parse_unsigned False (48 # rest) =
      Some (make_number False (digits_val ([48] @ [])) (0 - int (length ([]::jstring))), rest)"
    using parse_int_zero parse_frac_none[OF r2] parse_exp_none[OF r3]
    by (rule parse_unsigned_parts)
  then show ?thesis
    using True
    by (simp add: number_to_string_def parse_number_def reread_def make_number_zero
        digits_val_single)
next
  case False
  then have m: "0 < m" by simp
  obtain s t where s: "0 < s"
    and n: "number_to_string (NFinite neg m e) =
      (if neg then [45] else []) @ layout_number (show_nat s) t"
    and r: "reread neg m e = make_number neg s t"
    using m by (rule number_to_string_finite)
  let ?l = "layout_number (show_nat s) t"
  have p: "\<And>neg. parse_unsigned neg (?l @ rest) = Some (make_number neg s t, rest)"
    using s assms by (rule parse_layout)
  from layout_hd[OF s, of t] obtain c cs where l: "?l = c # cs" and c: "is_digit c"
    by (cases ?l) auto
  then have c45: "c \<noteq> 45" by (auto simp: is_digit_def)
  show ?thesis
  proof (cases neg)
    case True
    from n r True have n': "number_to_string (NFinite True m e) = 45 # ?l"
      and r': "reread True m e = make_number True s t" by simp_all
    from p[of True] True show ?thesis
      by (simp add: n' r' parse_number_def)
  next
    case neg: False
    from n r neg have n': "number_to_string (NFinite False m e) = ?l"
      and r': "reread False m e = make_number False s t" by simp_all
    have "parse_number (?l @ rest) = parse_unsigned False (?l @ rest)"
      using c45 by (simp add: l parse_number_def)
    with p[of False] neg show ?thesis
      by (simp add: n' r')
  qed
qed

lemma layout_chars:
  assumes "c \<in> set (layout_number ds e)" and "\<forall>d \<in> set ds. is_digit d"
  shows "32 \<le> c"
proof -
  have ds: "\<And>d. d \<in> set ds \<Longrightarrow> 32 \<le> d" using assms(2) by (auto simp: is_digit_def)
  have sn: "\<And>d x. d \<in> set (show_nat x) \<Longrightarrow> 32 \<le> d"
    using show_nat_digits by (fastforce simp: is_digit_def)
  show ?thesis
    using assms(1) ds sn
    by (auto simp: layout_number_def Let_def split: if_splits dest!: in_set_takeD in_set_dropD)
qed

lemma number_chars: "c \<in> set (number_to_string x) \<Longrightarrow> 32 \<le> c"
proof (cases x)
  case (NFinite neg m e)
  assume a: "c \<in> set (number_to_string x)"
  show ?thesis
  proof (cases "m = 0")
    case True
    with a NFinite show ?thesis by (simp add: number_to_string_def)
  next
    case False
    then have "0 < m" by simp
    then obtain s t where
      "number_to_string (NFinite neg m e) =
        (if neg then [45] else []) @ layout_number (show_nat s) t"
      by (rule number_to_string_finite)
    with a NFinite show ?thesis
      using layout_chars[of c "show_nat s" t] show_nat_digits
      by (auto split: if_splits)
  qed
next
  case (NInfinity neg)
  assume "c \<in> set (number_to_string x)"
  with NInfinity show ?thesis
    by (auto simp: number_to_string_def U_def split: if_splits)
qed

subsection \<open>Values\<close>

lemma value_start_not:
  assumes "value_start c"
  shows "\<not> is_json_ws c" "c \<noteq> 93" "c \<noteq> 125" "c \<noteq> 44" "\<not> is_trim_space c" "32 \<le> c"
  using assms by (auto simp: value_start_def is_json_ws_def is_trim_space_def is_digit_def)

lemma number_start: "number_to_string (NFinite neg m e) \<noteq> [] \<and> value_start (hd (number_to_string (NFinite neg m e)))"
proof (cases "m = 0")
  case True
  then show ?thesis by (simp add: number_to_string_def value_start_def is_digit_def)
next
  case False
  then have "0 < m" by simp
  then obtain s t where s: "0 < s"
    and n: "number_to_string (NFinite neg m e) =
      (if neg then [45] else []) @ layout_number (show_nat s) t"
    by (rule number_to_string_finite)
  from layout_hd[OF s, of t] show ?thesis
    unfolding n by (cases neg) (auto simp: value_start_def)
qed

lemma ser_start:
  assumes "ser v = Some t"
  shows "t \<noteq> [] \<and> value_start (hd t)"
proof (cases v)
  case (JNum x)
  show ?thesis
  proof (cases x)
    case (NFinite neg m e)
    with JNum assms number_start[of neg m e] show ?thesis by auto
  next
    case (NInfinity neg)
    with JNum assms show ?thesis by (auto simp: U_def value_start_def)
  qed
qed (use assms in \<open>auto simp: U_def value_start_def quote_def split: if_splits\<close>)

lemma skip_ws_start: "s \<noteq> [] \<Longrightarrow> \<not> is_json_ws (hd s) \<Longrightarrow> skip_ws (s @ r) = s @ r"
  by (cases s) (simp_all add: skip_ws_def)

lemma skip_ws_Cons: "\<not> is_json_ws c \<Longrightarrow> skip_ws (c # r) = c # r"
  by (simp add: skip_ws_def)

lemma parse_value_null: "parse_value (Suc n) (U ''null'' @ rest) = Some (JNull, rest)"
  by (simp add: U_def skip_ws_def is_json_ws_def is_digit_def)

lemma parse_value_true: "parse_value (Suc n) (U ''true'' @ rest) = Some (JBool True, rest)"
  by (simp add: U_def skip_ws_def is_json_ws_def is_digit_def)

lemma parse_value_false: "parse_value (Suc n) (U ''false'' @ rest) = Some (JBool False, rest)"
  by (simp add: U_def skip_ws_def is_json_ws_def is_digit_def)

lemma parse_value_string: "parse_value (Suc n) (quote s @ rest) = Some (JStr s, rest)"
  by (simp add: quote_def skip_ws_def is_json_ws_def parse_chars_quote)

lemma parse_value_number:
  assumes "num_end rest"
  shows "parse_value (Suc n) (number_to_string (NFinite neg m e) @ rest) =
     Some (JNum (reread neg m e), rest)"
proof -
  let ?t = "number_to_string (NFinite neg m e)"
  from number_start[of neg m e] obtain c cs where t: "?t = c # cs" and c: "value_start c"
    by (cases ?t) auto
  have c': "c = 45 \<or> is_digit c"
  proof -
    have "parse_number (?t @ rest) \<noteq> None" using parse_number_finite[OF assms] by simp
    then show ?thesis
      unfolding t by (auto simp: parse_number_def dest!: parse_unsigned_hd split: if_splits)
  qed
  then have ne: "c \<noteq> 123" "c \<noteq> 91" "c \<noteq> 34" by (auto simp: is_digit_def)
  have ws: "skip_ws ((c # cs) @ rest) = c # (cs @ rest)"
    using value_start_not(1)[OF c] by (simp add: skip_ws_def)
  have "parse_number (c # (cs @ rest)) = Some (reread neg m e, rest)"
    using parse_number_finite[OF assms, of neg m e] by (simp add: t)
  then show ?thesis
    unfolding t using ws ne c' by simp
qed

lemma ser_defined: "v \<noteq> JUndefined \<Longrightarrow> \<exists>t. ser v = Some t"
  by (cases v) auto

lemma ser_undefined: "ser v = None \<longleftrightarrow> v = JUndefined"
  by (cases v) auto

lemma num_end_delims: "num_end (44 # r)" "num_end (93 # r)" "num_end (125 # r)" "num_end []"
  by (simp_all add: num_end_def is_digit_def)

lemma join_comma_Cons: "join_comma (x # xs) = (if xs = [] then x else x @ 44 # join_comma xs)"
  by (cases xs) simp_all

lemma ser_elements_nonempty: "ser_elements vs = [] \<longleftrightarrow> vs = []"
  by (cases vs) auto

lemma element_text:
  "(case ser v of None \<Rightarrow> U ''null'' | Some t \<Rightarrow> t) \<noteq> []
   \<and> value_start (hd (case ser v of None \<Rightarrow> U ''null'' | Some t \<Rightarrow> t))"
proof (cases "ser v")
  case None
  then show ?thesis by (simp add: U_def value_start_def)
next
  case (Some t)
  with ser_start[OF Some] show ?thesis by simp
qed

lemma reparse:
  "\<forall>t n rest. ser v = Some t \<longrightarrow> need v \<le> n \<longrightarrow> num_end rest \<longrightarrow>
      parse_value n (t @ rest) = Some (reparsed v, rest)"
  "vs \<noteq> [] \<longrightarrow> (\<forall>n rest. need_elements vs \<le> n \<longrightarrow>
      parse_elements n (join_comma (ser_elements vs) @ 93 # rest) = Some (reparsed_elements vs, rest))"
  "ser_members ps \<noteq> [] \<longrightarrow> (\<forall>n rest. need_members ps \<le> n \<longrightarrow>
      parse_members n (join_comma (ser_members ps) @ 125 # rest) = Some (reparsed_members ps, rest))"
proof (induction v and vs and ps rule: ser_ser_elements_ser_members.induct)
  case 1
  show ?case by simp
next
  case 2
  show ?case
  proof (intro allI impI)
    fix t n rest assume "ser JNull = Some t" "need JNull \<le> n"
    then obtain n' where "n = Suc n'" "t = U ''null''" by (cases n) auto
    then show "parse_value n (t @ rest) = Some (reparsed JNull, rest)"
      by (simp only: parse_value_null reparsed.simps)
  qed
next
  case (3 b)
  show ?case
  proof (intro allI impI)
    fix t n rest assume "ser (JBool b) = Some t" "need (JBool b) \<le> n"
    then obtain n' where n: "n = Suc n'" and t: "t = (if b then U ''true'' else U ''false'')"
      by (cases n) auto
    show "parse_value n (t @ rest) = Some (reparsed (JBool b), rest)"
      unfolding n t by (cases b) (simp_all only: parse_value_true parse_value_false reparsed.simps if_True if_False)
  qed
next
  case (4 x)
  show ?case
  proof (intro allI impI)
    fix t n rest assume a: "ser (JNum x) = Some t" "need (JNum x) \<le> n" "num_end rest"
    then obtain n' where n: "n = Suc n'" by (cases n) auto
    show "parse_value n (t @ rest) = Some (reparsed (JNum x), rest)"
    proof (cases x)
      case (NFinite neg m e)
      with a have t: "t = number_to_string (NFinite neg m e)" by simp
      show ?thesis
        unfolding n t using parse_value_number[OF a(3)] NFinite by simp
    next
      case (NInfinity neg)
      with a have t: "t = U ''null''" by simp
      show ?thesis
        unfolding n t using NInfinity by (simp only: parse_value_null reparsed.simps number.case)
    qed
  qed
next
  case (5 s)
  show ?case
  proof (intro allI impI)
    fix t n rest assume "ser (JStr s) = Some t" "need (JStr s) \<le> n"
    then obtain n' where "n = Suc n'" "t = quote s" by (cases n) auto
    then show "parse_value n (t @ rest) = Some (reparsed (JStr s), rest)"
      by (simp only: parse_value_string reparsed.simps)
  qed
next
  case (6 vs)
  show ?case
  proof (intro allI impI)
    fix t n rest assume a: "ser (JArr vs) = Some t" "need (JArr vs) \<le> n"
    then obtain n' where n: "n = Suc n'" and n': "need_elements vs \<le> n'"
      and t: "t = 91 # join_comma (ser_elements vs) @ [93]" by (cases n) auto
    show "parse_value n (t @ rest) = Some (reparsed (JArr vs), rest)"
    proof (cases vs)
      case Nil
      then show ?thesis
        unfolding n t by (simp add: skip_ws_def is_json_ws_def)
    next
      case (Cons v vs')
      let ?j = "join_comma (ser_elements vs)"
      have "?j \<noteq> [] \<and> value_start (hd ?j)"
        using element_text[of v] by (simp add: Cons join_comma_Cons)
      then obtain d ds where j: "?j = d # ds" and d: "value_start d"
        by (cases ?j) auto
      have p: "parse_elements n' (?j @ 93 # rest) = Some (reparsed_elements vs, rest)"
        using 6 n' Cons by simp
      have ws: "skip_ws (d # ds @ 93 # rest) = d # ds @ 93 # rest"
        using value_start_not(1)[OF d] by (simp add: skip_ws_def)
      show ?thesis
        unfolding n t using p value_start_not(2)[OF d] ws
        by (simp add: j skip_ws_def is_json_ws_def)
    qed
  qed
next
  case (7 ps)
  show ?case
  proof (intro allI impI)
    fix t n rest assume a: "ser (JObj ps) = Some t" "need (JObj ps) \<le> n"
    then obtain n' where n: "n = Suc n'" and n': "need_members ps \<le> n'"
      and t: "t = 123 # join_comma (ser_members ps) @ [125]" by (cases n) auto
    show "parse_value n (t @ rest) = Some (reparsed (JObj ps), rest)"
    proof (cases "ser_members ps = []")
      case True
      have "reparsed_members ps = []" using True
        by (induction ps) (auto split: option.splits simp: ser_undefined)
      with True show ?thesis
        unfolding n t by (simp add: skip_ws_def is_json_ws_def build_object_def)
    next
      case False
      let ?j = "join_comma (ser_members ps)"
      from False obtain x xs where sm: "ser_members ps = x # xs" by (cases "ser_members ps") auto
      have "x \<noteq> [] \<and> hd x = 34"
        using sm by (induction ps) (auto split: option.splits simp: quote_def)
      then have "?j \<noteq> [] \<and> hd ?j = 34"
        by (simp add: sm join_comma_Cons)
      then obtain ds where j: "?j = 34 # ds"
        by (cases ?j) auto
      have p: "parse_members n' (?j @ 125 # rest) = Some (reparsed_members ps, rest)"
        using 7 n' False by simp
      show ?thesis
        unfolding n t using p
        by (simp add: j skip_ws_def is_json_ws_def)
    qed
  qed
next
  case 8
  show ?case by simp
next
  case (9 v vs)
  show ?case
  proof (intro allI impI)
    fix n rest assume a: "need_elements (v # vs) \<le> n"
    then obtain n' where n: "n = Suc n'" and nv: "need v \<le> n'" and nvs: "need_elements vs \<le> n'"
      by (cases n) auto
    let ?t = "case ser v of None \<Rightarrow> U ''null'' | Some t \<Rightarrow> t"
    let ?r = "if v = JUndefined then JNull else reparsed v"
    have pv: "parse_value n' (?t @ R) = Some (?r, R)" if "num_end R" for R
    proof (cases "ser v")
      case None
      then have v: "v = JUndefined" by (simp add: ser_undefined)
      from nv obtain k where "n' = Suc k" by (cases n') (auto simp: v)
      then show ?thesis using None v by (simp add: parse_value_null del: parse_value.simps)
    next
      case (Some t)
      then have "v \<noteq> JUndefined" by auto
      with 9(1) Some nv that show ?thesis by simp
    qed
    show "parse_elements n (join_comma (ser_elements (v # vs)) @ 93 # rest) =
        Some (reparsed_elements (v # vs), rest)"
    proof (cases vs)
      case Nil
      have "parse_value n' (?t @ 93 # rest) = Some (?r, 93 # rest)"
        by (rule pv) (rule num_end_delims)
      then show ?thesis
        unfolding n using Nil by (simp add: skip_ws_def is_json_ws_def)
    next
      case (Cons w ws)
      let ?R = "44 # join_comma (ser_elements vs) @ 93 # rest"
      have 1: "parse_value n' (?t @ ?R) = Some (?r, ?R)"
        by (rule pv) (rule num_end_delims)
      have 2: "parse_elements n' (join_comma (ser_elements vs) @ 93 # rest) =
          Some (reparsed_elements vs, rest)"
        using 9(2) nvs Cons by simp
      have j: "join_comma (ser_elements (v # vs)) = ?t @ 44 # join_comma (ser_elements vs)"
        using Cons by (simp add: join_comma_Cons)
      show ?thesis
        unfolding n j using 1 2 by (simp add: skip_ws_def is_json_ws_def)
    qed
  qed
next
  case 10
  show ?case by simp
next
  case (11 k v ps)
  show ?case
  proof (cases "ser v")
    case None
    then have v: "v = JUndefined" by (simp add: ser_undefined)
    with 11(2)[OF None] None show ?thesis by simp
  next
    case (Some t)
    then have v: "v \<noteq> JUndefined" by auto
    show ?thesis
    proof (intro allI impI)
      fix n rest assume "need_members ((k, v) # ps) \<le> n"
      with v obtain n' where n: "n = Suc n'" and nv: "need v \<le> n'" and nps: "need_members ps \<le> n'"
        by (cases n) auto
      have pv: "parse_value n' (t @ R) = Some (reparsed v, R)" if "num_end R" for R
        using 11(1) Some nv that by simp
      have key: "parse_chars (quote_chars k @ 34 # R) = Some (k, R)" for R
        by (rule parse_chars_quote)
      show "parse_members n (join_comma (ser_members ((k, v) # ps)) @ 125 # rest) =
          Some (reparsed_members ((k, v) # ps), rest)"
      proof (cases "ser_members ps = []")
        case True
        have rm: "reparsed_members ps = []" using True
          by (induction ps) (auto split: option.splits simp: ser_undefined)
        have "parse_value n' (t @ 125 # rest) = Some (reparsed v, 125 # rest)"
          by (rule pv) (rule num_end_delims)
        then show ?thesis
          unfolding n using True Some v rm key
          by (simp add: quote_def skip_ws_def is_json_ws_def)
      next
        case False
        let ?R = "44 # join_comma (ser_members ps) @ 125 # rest"
        have 1: "parse_value n' (t @ ?R) = Some (reparsed v, ?R)"
          by (rule pv) (rule num_end_delims)
        have 2: "parse_members n' (join_comma (ser_members ps) @ 125 # rest) =
            Some (reparsed_members ps, rest)"
          using 11(3)[OF Some] nps False by simp
        have j: "join_comma (ser_members ((k, v) # ps)) =
            (quote k @ 58 # t) @ 44 # join_comma (ser_members ps)"
          using False Some by (simp add: join_comma_Cons)
        show ?thesis
          unfolding n j using 1 2 v key
          by (simp add: quote_def skip_ws_def is_json_ws_def)
      qed
    qed
  qed
qed

lemma length_join_comma_Cons:
  "length (join_comma (x # xs)) = length x + (if xs = [] then 0 else Suc (length (join_comma xs)))"
  by (simp add: join_comma_Cons)

lemma need_bound:
  "\<forall>t. ser v = Some t \<longrightarrow> need v \<le> length t"
  "need_elements vs \<le> Suc (length (join_comma (ser_elements vs)))"
  "need_members ps \<le> Suc (length (join_comma (ser_members ps)))"
proof (induction v and vs and ps rule: ser_ser_elements_ser_members.induct)
  case (4 x)
  show ?case
  proof (cases x)
    case (NFinite neg m e)
    with number_start[of neg m e] show ?thesis
      by (cases "number_to_string (NFinite neg m e)") auto
  next
    case (NInfinity neg)
    then show ?thesis by (simp add: U_def)
  qed
next
  case (9 v vs)
  let ?t = "case ser v of None \<Rightarrow> U ''null'' | Some t \<Rightarrow> t"
  have nv: "need v \<le> length ?t"
  proof (cases "ser v")
    case None
    then have "v = JUndefined" by (simp add: ser_undefined)
    with None show ?thesis by (simp add: U_def)
  next
    case (Some t)
    with 9(1) show ?thesis by simp
  qed
  show ?case
  proof (cases vs)
    case Nil
    with nv show ?thesis by simp
  next
    case (Cons w ws)
    with nv 9(2) show ?thesis
      by (simp add: length_join_comma_Cons ser_elements_nonempty)
  qed
next
  case (11 k v ps)
  show ?case
  proof (cases "ser v")
    case None
    then have "v = JUndefined" by (simp add: ser_undefined)
    with 11(2)[OF None] None show ?thesis by simp
  next
    case (Some t)
    then have v: "v \<noteq> JUndefined" by auto
    from 11(1) Some have nv: "need v \<le> length t" by simp
    from 11(3)[OF Some] have np: "need_members ps \<le> Suc (length (join_comma (ser_members ps)))" .
    show ?thesis
      using v nv np Some by (auto simp: length_join_comma_Cons quote_def)
  qed
qed (auto simp: U_def quote_def)

lemma JSON_parse_ser:
  assumes "ser v = Some t"
  shows "JSON_parse t = Some (reparsed v)"
proof -
  from need_bound(1)[of v] assms have "need v \<le> Suc (length t)" by auto
  with reparse(1)[of v] assms have "parse_value (Suc (length t)) (t @ []) = Some (reparsed v, [])"
    using num_end_delims(4) by blast
  then show ?thesis by (simp add: JSON_parse_def skip_ws_def)
qed

lemma join_comma_chars:
  assumes "\<forall>x \<in> set xs. \<forall>c \<in> set x. 32 \<le> c"
  shows "\<forall>c \<in> set (join_comma xs). (32::nat) \<le> c"
  using assms by (induction xs rule: join_comma.induct) auto

lemma ser_chars:
  "\<forall>t. ser v = Some t \<longrightarrow> (\<forall>c \<in> set t. 32 \<le> c)"
  "\<forall>x \<in> set (ser_elements vs). \<forall>c \<in> set x. 32 \<le> c"
  "\<forall>x \<in> set (ser_members ps). \<forall>c \<in> set x. 32 \<le> c"
proof (induction v and vs and ps rule: ser_ser_elements_ser_members.induct)
  case (4 x)
  show ?case
    using number_chars[of _ x] by (cases x) (auto simp: U_def)
next
  case (5 s)
  show ?case using quote_ge32 by auto
next
  case (6 vs)
  with join_comma_chars[of "ser_elements vs"] show ?case by auto
next
  case (7 ps)
  with join_comma_chars[of "ser_members ps"] show ?case by auto
next
  case (9 v vs)
  then show ?case by (cases "ser v") (auto simp: U_def)
next
  case (11 k v ps)
  then show ?case
    using quote_ge32[of _ k] by (cases "ser v") auto
qed (auto simp: U_def)

lemma ser_no_newline: "ser v = Some t \<Longrightarrow> 10 \<notin> set t"
  using ser_chars(1)[of v] by fastforce

lemma ser_non_blank:
  assumes "ser v = Some t"
  shows "non_blank t"
proof -
  from ser_start[OF assms] obtain c cs where t: "t = c # cs" and c: "\<not> is_trim_space c"
    by (cases t) (auto dest: value_start_not(5))
  have "dropWhile is_trim_space t = t" using t c by simp
  moreover have "dropWhile is_trim_space (rev t) \<noteq> []"
    using t c by simp
  ultimately show ?thesis by (simp add: non_blank_def trim_def)
qed

lemma split_nl_append:
  "10 \<notin> set l \<Longrightarrow> split_nl (l @ 10 # r) = l # split_nl r"
  by (induction l) auto

lemma split_join_nl:
  assumes "ls \<noteq> []" and "\<forall>l \<in> set ls. 10 \<notin> set l"
  shows "split_nl (join_nl ls) = ls"
  using assms
proof (induction ls rule: join_nl.induct)
  case 1
  then show ?case by simp
next
  case (2 x)
  then show ?case by (simp add: split_nl_no_newline)
next
  case (3 x y ys)
  then show ?case by (simp add: split_nl_append)
qed

section \<open>Importing an export\<close>

lemma export_text_conv_text: "export_text h convs = join_nl (map (conv_text h) convs)"
  by (simp add: export_text_def conv_text_def[abs_def])

lemma conv_text_cases:
  "conv_text h c = [] \<or> (\<exists>v t. deref h c = v \<and> ser v = Some t \<and> conv_text h c = t)"
  by (cases "ser (deref h c)") (auto simp: conv_text_def JSON_stringify_def)

lemma conv_text_no_newline: "10 \<notin> set (conv_text h c)"
  using conv_text_cases[of h c] ser_no_newline by fastforce

lemma conv_text_line_ok: "\<not> (non_blank (conv_text h c) \<and> JSON_parse (conv_text h c) = None)"
  using conv_text_cases[of h c] JSON_parse_ser
  by (auto simp: non_blank_def trim_def)

lemma export_lines:
  "set (split_nl (export_text h convs)) \<subseteq> insert [] (conv_text h ` set convs)"
proof (cases "convs = []")
  case True
  then show ?thesis by (simp add: export_text_conv_text)
next
  case False
  then have "split_nl (export_text h convs) = map (conv_text h) convs"
    by (simp add: export_text_conv_text split_join_nl conv_text_no_newline)
  then show ?thesis by auto
qed

lemma export_no_errors: "errors (parseContent st (export_text h convs)) = []"
proof -
  have "filter (\<lambda>(j, l). non_blank l \<and> JSON_parse l = None)
      (enumerate 0 (split_nl (export_text h convs))) = []"
  proof (rule filter_False, clarify)
    fix j l assume "(j, l) \<in> set (enumerate 0 (split_nl (export_text h convs)))"
      and nb: "non_blank l" and np: "JSON_parse l = None"
    then have "l \<in> set (split_nl (export_text h convs))"
      using in_set_enumerate_snd by fastforce
    with export_lines have "l = [] \<or> (\<exists>c. l = conv_text h c)" by blast
    then show False
    proof
      assume "l = []"
      with nb show False by (simp add: non_blank_def trim_def)
    next
      assume "\<exists>c. l = conv_text h c"
      then obtain c where "l = conv_text h c" ..
      with nb np conv_text_line_ok[of h c] show False by simp
    qed
  qed
  then show ?thesis by (simp add: parseContent_errors)
qed

text \<open>
  Claim C9 (an export imports cleanly). For every heap and every collection, importing
  the exported text gives an empty error list. When no conversation is \<open>undefined\<close>, the
  lines of the export of a non-empty collection are the serialized texts of its
  conversations, one each, and every one of them is non-blank and is accepted by
  \<open>JSON.parse\<close>.
\<close>

theorem export_reimports:
  "errors (parseContent st (export_text h convs)) = []
   \<and> ((\<forall>c \<in> set convs. JSON_stringify (deref h c) \<noteq> None) \<longrightarrow>
        (convs \<noteq> [] \<longrightarrow> split_nl (export_text h convs) = map (conv_text h) convs)
        \<and> (\<forall>c \<in> set convs. non_blank (conv_text h c) \<and> JSON_parse (conv_text h c) \<noteq> None))"
proof -
  have 1: "convs \<noteq> [] \<longrightarrow> split_nl (export_text h convs) = map (conv_text h) convs"
    by (simp add: export_text_conv_text split_join_nl conv_text_no_newline)
  have 2: "non_blank (conv_text h c) \<and> JSON_parse (conv_text h c) \<noteq> None"
    if "JSON_stringify (deref h c) \<noteq> None" for c
  proof -
    from that obtain t where t: "ser (deref h c) = Some t" by (auto simp: JSON_stringify_def)
    then have "conv_text h c = t" by (simp add: conv_text_def JSON_stringify_def)
    with ser_non_blank[OF t] JSON_parse_ser[OF t] show ?thesis by simp
  qed
  from export_no_errors 1 2 show ?thesis by blast
qed

theorem export_reimports_witness:
  "JSON_stringify (deref (heap example_store) (Obj 0)) \<noteq> None
   \<and> JSON_stringify (deref (heap example_store) (Obj 1)) \<noteq> None
   \<and> errors (parseContent example_store (export_text (heap example_store) [Obj 0, Obj 1])) = []
   \<and> non_blank (conv_text (heap example_store) (Obj 0))
   \<and> JSON_parse (conv_text (heap example_store) (Obj 1)) \<noteq> None"
proof -
  have h: "\<forall>c \<in> set [Obj 0, Obj 1]. JSON_stringify (deref (heap example_store) c) \<noteq> None"
    by (simp add: example_texts)
  from export_reimports [of example_store "heap example_store" "[Obj 0, Obj 1]"] h
  have "errors (parseContent example_store (export_text (heap example_store) [Obj 0, Obj 1])) = []"
    and "\<forall>c \<in> set [Obj 0, Obj 1]. non_blank (conv_text (heap example_store) c)
        \<and> JSON_parse (conv_text (heap example_store) c) \<noteq> None"
    by blast+
  with h show ?thesis by simp
qed

section \<open>The values \<open>JSON.parse\<close> produces\<close>

lemma key_before_trans: "key_before a b \<Longrightarrow> key_before b c \<Longrightarrow> key_before a c"
  by (auto simp: key_before_def split: option.splits)

lemma key_before_asym: "key_before a b \<Longrightarrow> \<not> key_before b a"
  by (auto simp: key_before_def split: option.splits)

lemma map_fst_replace_prop: "map fst (replace_prop ps k v) = map fst ps"
  by (induction ps k v rule: replace_prop.induct) auto

lemma set_insert_prop: "set (insert_prop ps k v) = insert (k, v) (set ps)"
  by (induction ps k v rule: insert_prop.induct) auto

lemma set_fst_insert_prop: "set (map fst (insert_prop ps k v)) = insert k (set (map fst ps))"
  by (simp add: set_insert_prop)

lemma distinct_insert_prop:
  "distinct (map fst ps) \<Longrightarrow> k \<notin> set (map fst ps) \<Longrightarrow> distinct (map fst (insert_prop ps k v))"
proof (induction ps)
  case Nil
  show ?case by simp
next
  case (Cons p ps)
  obtain k' v' where p: "p = (k', v')" by (cases p)
  from Cons show ?case
    using set_fst_insert_prop[of ps k v] by (auto simp: p)
qed

lemma ordered_insert_prop:
  "ordered_keys (map fst ps) \<Longrightarrow> ordered_keys (map fst (insert_prop ps k v))"
proof (induction ps)
  case Nil
  show ?case by (simp add: ordered_keys_def)
next
  case (Cons p ps)
  obtain k' v' where p: "p = (k', v')" by (cases p)
  from Cons.prems have o: "\<forall>y \<in> set (map fst ps). \<not> key_before y k'"
    and ops: "ordered_keys (map fst ps)"
    by (auto simp: p ordered_keys_def)
  show ?case
  proof (cases "key_before k k'")
    case True
    have "\<not> key_before k' k" using True by (rule key_before_asym)
    moreover have "\<forall>y \<in> set (map fst ps). \<not> key_before y k"
      using o True key_before_trans by blast
    ultimately show ?thesis
      using True Cons.prems by (auto simp: p ordered_keys_def)
  next
    case False
    have "\<forall>y \<in> set (map fst (insert_prop ps k v)). \<not> key_before y k'"
      using o False set_fst_insert_prop[of ps k v] by auto
    with False Cons.IH[OF ops] show ?thesis
      by (auto simp: p ordered_keys_def)
  qed
qed

lemma well_ordered_define_prop: "well_ordered ps \<Longrightarrow> well_ordered (define_prop ps k v)"
  by (auto simp: well_ordered_def define_prop_def map_fst_replace_prop
      intro: distinct_insert_prop ordered_insert_prop)

lemma insert_prop_last:
  "\<forall>x \<in> set (map fst ps). \<not> key_before k x \<Longrightarrow> insert_prop ps k v = ps @ [(k, v)]"
  by (induction ps k v rule: insert_prop.induct) auto

lemma define_prop_last:
  assumes "well_ordered (ps @ [(k, v)])"
  shows "define_prop ps k v = ps @ [(k, v)]"
proof -
  from assms have nk: "k \<notin> set (map fst ps)"
    and o: "\<forall>x \<in> set (map fst ps). \<not> key_before k x"
    by (auto simp: well_ordered_def ordered_keys_def sorted_wrt_append)
  then show ?thesis by (simp add: define_prop_def insert_prop_last)
qed

lemma well_ordered_prefix: "well_ordered (ps @ qs) \<Longrightarrow> well_ordered ps"
  by (auto simp: well_ordered_def ordered_keys_def sorted_wrt_append)

lemma build_object_snoc: "build_object (kvs @ [(k, v)]) = define_prop (build_object kvs) k v"
  by (simp add: build_object_def)

lemma build_object_fixed: "well_ordered ps \<Longrightarrow> build_object ps = ps"
proof (induction ps rule: rev_induct)
  case Nil
  show ?case by (simp add: build_object_def)
next
  case (snoc p ps)
  obtain k v where p: "p = (k, v)" by (cases p)
  from snoc.prems have "well_ordered ps" by (rule well_ordered_prefix)
  with snoc.IH have "build_object ps = ps" by simp
  with snoc.prems show ?case
    by (simp add: p build_object_snoc define_prop_last)
qed

lemma well_ordered_build_object: "well_ordered (build_object kvs)"
proof (induction kvs rule: rev_induct)
  case Nil
  show ?case by (simp add: build_object_def well_ordered_def ordered_keys_def)
next
  case (snoc p kvs)
  obtain k v where p: "p = (k, v)" by (cases p)
  from snoc show ?case
    by (simp add: p build_object_snoc well_ordered_define_prop)
qed

lemma build_object_idem: "build_object (build_object kvs) = build_object kvs"
  by (simp add: build_object_fixed well_ordered_build_object)

lemma set_replace_prop: "set (replace_prop ps k v) \<subseteq> insert (k, v) (set ps)"
  by (induction ps k v rule: replace_prop.induct) auto

lemma set_define_prop: "set (define_prop ps k v) \<subseteq> insert (k, v) (set ps)"
  using set_replace_prop[of ps k v] by (auto simp: define_prop_def set_insert_prop)

lemma set_build_object: "set (build_object kvs) \<subseteq> set kvs"
proof (induction kvs rule: rev_induct)
  case Nil
  show ?case by (simp add: build_object_def)
next
  case (snoc p kvs)
  obtain k v where p: "p = (k, v)" by (cases p)
  from snoc set_define_prop[of "build_object kvs" k v] show ?case
    by (auto simp: p build_object_snoc)
qed

lemma canonical_members_iff: "canonical_members ps \<longleftrightarrow> (\<forall>p \<in> set ps. canonical (snd p))"
  by (induction ps) auto

lemma reread_double:
  assumes "is_double m e"
  shows "reread neg m e = NFinite neg m e"
proof -
  from assms have m: "0 < m" by (cases m) (auto simp: is_double_def)
  obtain c u where sd: "shortest_decimal neg m e = (c, u)" by (cases "shortest_decimal neg m e")
  obtain s t where st: "strip10 c u = (s, t)" by (cases "strip10 c u")
  from shortest_decimal_pos[OF m sd] have c: "0 < c" .
  from make_number_strip10[OF c st, of neg] shortest_decimal_rounds[OF assms sd]
  have "make_number neg s t = NFinite neg m e" by simp
  then show ?thesis using m by (simp add: reread_def sd st)
qed

lemma insert_prop_values:
  "insert_prop (map (\<lambda>(k, v). (k, f v)) ps) k (f v) = map (\<lambda>(k, v). (k, f v)) (insert_prop ps k v)"
  by (induction ps k v rule: insert_prop.induct) auto

lemma replace_prop_values:
  "replace_prop (map (\<lambda>(k, v). (k, f v)) ps) k (f v) = map (\<lambda>(k, v). (k, f v)) (replace_prop ps k v)"
  by (induction ps k v rule: replace_prop.induct) auto

lemma define_prop_values:
  "define_prop (map (\<lambda>(k, v). (k, f v)) ps) k (f v) = map (\<lambda>(k, v). (k, f v)) (define_prop ps k v)"
proof -
  have "map fst (map (\<lambda>(k, v). (k, f v)) ps) = map fst ps" by (induction ps) auto
  then show ?thesis
    by (simp add: define_prop_def insert_prop_values replace_prop_values del: map_map)
qed

lemma build_object_values:
  "build_object (map (\<lambda>(k, v). (k, f v)) kvs) = map (\<lambda>(k, v). (k, f v)) (build_object kvs)"
proof (induction kvs rule: rev_induct)
  case Nil
  show ?case by (simp add: build_object_def)
next
  case (snoc p kvs)
  obtain k v where p: "p = (k, v)" by (cases p)
  show ?case
    using snoc by (simp add: p build_object_snoc define_prop_values)
qed

lemma normalized_members_map:
  "normalized_members ps = map (\<lambda>(k, v). (k, normalized v)) ps"
  by (induction ps) auto

lemma reparsed_canonical:
  "canonical v \<longrightarrow> reparsed v = normalized v"
  "canonical_elements vs \<longrightarrow> reparsed_elements vs = normalized_elements vs"
  "canonical_members ps \<longrightarrow> reparsed_members ps = normalized_members ps"
proof (induction v and vs and ps rule: reparsed_reparsed_elements_reparsed_members.induct)
  case (4 x)
  show ?case
  proof (cases x)
    case (NFinite neg m e)
    show ?thesis
    proof (cases "m = 0")
      case True
      then show ?thesis by (simp add: NFinite normalized_number_def reread_def)
    next
      case False
      then show ?thesis by (auto simp: NFinite normalized_number_def reread_double)
    qed
  next
    case (NInfinity neg)
    then show ?thesis by (simp add: normalized_number_def)
  qed
next
  case (7 ps)
  show ?case
  proof
    assume c: "canonical (JObj ps)"
    with 7 have "reparsed_members ps = normalized_members ps" by simp
    moreover have "build_object (normalized_members ps) = normalized_members ps"
      using c build_object_values[of normalized ps] by (simp add: normalized_members_map)
    ultimately show "reparsed (JObj ps) = normalized (JObj ps)" by simp
  qed
next
  case (9 v vs)
  then show ?case by (cases v) auto
next
  case (11 k v ps)
  then show ?case by (cases v) auto
qed auto

lemma normalized_plain:
  "plain_numbers v \<longrightarrow> normalized v = v"
  "plain_elements vs \<longrightarrow> normalized_elements vs = vs"
  "plain_members ps \<longrightarrow> normalized_members ps = ps"
proof (induction v and vs and ps rule: normalized_normalized_elements_normalized_members.induct)
  case (1 x)
  show ?case
    by (cases x) (auto simp: normalized_number_def plain_number_def)
qed auto

lemma canonical_build_object:
  assumes "canonical_members kvs"
  shows "canonical (JObj (build_object kvs))"
  using assms set_build_object[of kvs]
  by (auto simp: build_object_idem canonical_members_iff)

lemma parse_number_make:
  assumes "parse_number s = Some (x, r)"
  shows "\<exists>neg m e. x = make_number neg m e"
  using assms
  by (fastforce simp: parse_number_def parse_unsigned_def
      split: list.splits if_splits option.splits)

lemma canonical_make_number: "canonical (JNum (make_number neg m e))"
proof (cases "make_number neg m e")
  case (NFinite neg' m' e')
  with make_number_is_double[OF NFinite] show ?thesis by (simp split: if_splits)
next
  case (NInfinity neg')
  then show ?thesis by simp
qed

lemma parse_canonical:
  "(\<forall>s v r. parse_value n s = Some (v, r) \<longrightarrow> canonical v)
   \<and> (\<forall>s vs r. parse_elements n s = Some (vs, r) \<longrightarrow> canonical_elements vs)
   \<and> (\<forall>s kvs r. parse_members n s = Some (kvs, r) \<longrightarrow> canonical_members kvs)"
proof (induction n)
  case 0
  show ?case by simp
next
  case (Suc n)
  then have ihv: "\<And>s v r. parse_value n s = Some (v, r) \<Longrightarrow> canonical v"
    and ihe: "\<And>s vs r. parse_elements n s = Some (vs, r) \<Longrightarrow> canonical_elements vs"
    and ihm: "\<And>s kvs r. parse_members n s = Some (kvs, r) \<Longrightarrow> canonical_members kvs"
    by blast+
  have 1: "canonical v" if "parse_value (Suc n) s = Some (v, r)" for s v r
    using that ihe ihm canonical_build_object canonical_make_number
    by (auto simp: build_object_def split: list.splits if_splits option.splits prod.splits
        dest!: parse_number_make)
  have 2: "canonical_elements vs" if "parse_elements (Suc n) s = Some (vs, r)" for s vs r
    using that ihv ihe
    by (auto split: list.splits if_splits option.splits prod.splits)
  have 3: "canonical_members kvs" if "parse_members (Suc n) s = Some (kvs, r)" for s kvs r
    using that ihv ihm
    by (auto split: list.splits if_splits option.splits prod.splits)
  from 1 2 3 show ?case by blast
qed

lemma parse_value_canonical: "parse_value n s = Some (v, r) \<Longrightarrow> canonical v"
  using parse_canonical[of n] by blast

lemma JSON_parse_canonical:
  assumes "JSON_parse s = Some v"
  shows "canonical v"
proof (cases "parse_value (Suc (length s)) s")
  case None
  with assms show ?thesis by (simp add: JSON_parse_def del: parse_value.simps)
next
  case (Some p)
  obtain w r where p: "p = (w, r)" by (cases p)
  with Some assms have "w = v"
    by (simp add: JSON_parse_def del: parse_value.simps split: if_splits)
  with Some p parse_value_canonical show ?thesis by blast
qed

section \<open>Import after export\<close>

lemma parseContent_canonical:
  assumes "v \<in> set (contents (parseContent st text))"
  shows "canonical v"
proof -
  from assms obtain l where "JSON_parse l \<noteq> None" "v = the (JSON_parse l)"
    by (auto simp: parseContent_contents)
  then show ?thesis using JSON_parse_canonical by auto
qed

lemma canonical_conv_text:
  assumes "canonical (deref h c)"
  shows "non_blank (conv_text h c)"
    and "JSON_parse (conv_text h c) = Some (normalized (deref h c))"
proof -
  from assms have "deref h c \<noteq> JUndefined" by auto
  then obtain t where t: "ser (deref h c) = Some t" using ser_defined by blast
  then have ct: "conv_text h c = t" by (simp add: conv_text_def JSON_stringify_def)
  show "non_blank (conv_text h c)" using ser_non_blank[OF t] ct by simp
  show "JSON_parse (conv_text h c) = Some (normalized (deref h c))"
    using JSON_parse_ser[OF t] reparsed_canonical(1)[of "deref h c"] assms ct by simp
qed

lemma reimport_contents:
  assumes "\<forall>c \<in> set cs. canonical (deref h c)"
  shows "contents (parseContent st' (export_text h cs)) = map (\<lambda>c. normalized (deref h c)) cs"
proof (cases "cs = []")
  case True
  then show ?thesis
    by (simp add: parseContent_contents export_text_conv_text non_blank_def trim_def)
next
  case False
  then have l: "split_nl (export_text h cs) = map (conv_text h) cs"
    by (simp add: export_text_conv_text split_join_nl conv_text_no_newline)
  have ok: "\<And>c. c \<in> set cs \<Longrightarrow>
      non_blank (conv_text h c) \<and> JSON_parse (conv_text h c) = Some (normalized (deref h c))"
    using assms canonical_conv_text by blast
  have f: "filter (\<lambda>l. non_blank l \<and> JSON_parse l \<noteq> None) (map (conv_text h) cs) =
      map (conv_text h) cs"
    by (rule filter_all) (use ok in auto)
  have m: "map (\<lambda>l. the (JSON_parse l)) (map (conv_text h) cs) =
      map (\<lambda>c. normalized (deref h c)) cs"
    using ok by simp
  show ?thesis unfolding parseContent_contents l f by (rule m)
qed

lemma map_normalized_plain:
  assumes "\<forall>v \<in> set vs. plain_numbers v"
  shows "map normalized vs = vs"
  using assms normalized_plain(1) by (induction vs) auto

text \<open>
  Claim C2 (round trip), as the code has it. Take the collection an import produces.
  Importing the text that the export writes (every conversation serialized on a line of
  its own, the lines joined by line feeds; for a non-empty collection this is the file
  \<open>handleDownload\<close> hands to the browser) gives the same collection with the numbers that
  JSON cannot write normalized: a negative zero has become \<open>0\<close>, an infinity has become
  \<open>null\<close>. Everything else is as it was, the order of the keys too; so a collection that
  holds no negative zero and no infinity comes back as it was. (The claim as written has
  a structurally equal collection for every imported collection;
  \<open>overflow_not_restored\<close> below imports a line whose number literal is beyond the range
  of the doubles and is read as \<open>Infinity\<close>, which the export writes as \<open>null\<close>.)
\<close>

theorem export_import_roundtrip:
  "contents (parseContent st'
      (export_text (heap (parseContent st text)) (conversations (parseContent st text))))
     = map normalized (contents (parseContent st text))
   \<and> ((\<forall>v \<in> set (contents (parseContent st text)). plain_numbers v) \<longrightarrow>
        contents (parseContent st'
          (export_text (heap (parseContent st text)) (conversations (parseContent st text))))
         = contents (parseContent st text))
   \<and> (conversations (parseContent st text) \<noteq> [] \<longrightarrow>
        snd (handleDownload (parseContent st text)) =
          [DownloadFile (U ''conversations.jsonl'') (U ''application/json'')
             (export_text (heap (parseContent st text)) (conversations (parseContent st text)))])"
proof -
  let ?st = "parseContent st text"
  have "\<forall>c \<in> set (conversations ?st). canonical (deref (heap ?st) c)"
  proof
    fix c assume "c \<in> set (conversations ?st)"
    then have "deref (heap ?st) c \<in> set (contents ?st)" by (simp add: contents_def)
    then show "canonical (deref (heap ?st) c)" by (rule parseContent_canonical)
  qed
  then have "contents (parseContent st' (export_text (heap ?st) (conversations ?st))) =
      map (\<lambda>c. normalized (deref (heap ?st) c)) (conversations ?st)"
    by (rule reimport_contents)
  then have 1: "contents (parseContent st' (export_text (heap ?st) (conversations ?st))) =
      map normalized (contents ?st)"
    by (simp add: contents_def)
  have 2: "(\<forall>v \<in> set (contents ?st). plain_numbers v) \<longrightarrow>
      contents (parseContent st' (export_text (heap ?st) (conversations ?st))) = contents ?st"
    using 1 map_normalized_plain by simp
  have 3: "conversations ?st \<noteq> [] \<longrightarrow>
      snd (handleDownload ?st) =
        [DownloadFile (U ''conversations.jsonl'') (U ''application/json'')
           (export_text (heap ?st) (conversations ?st))]"
    by (simp add: handleDownload_def)
  from 1 2 3 show ?thesis by blast
qed

lemmas number_eval = make_number_def to_double_def floor_log2_def scale2_def
  round_half_even_def bit_length.simps strip2.simps Let_def

lemma make_number_2_5: "make_number False 25 (- 1) = NFinite False 5 (- 1)"
  by (simp add: number_eval)

lemma make_number_2_53: "make_number False 9007199254740993 0 = NFinite False (Suc 0) 53"
  by (simp add: number_eval)

lemmas parse_eval = parse_number_def parse_unsigned_def parse_int_def parse_frac_def
  parse_exp_def parse_exp_digits_def digits_val_def

lemma number_parse:
  "JSON_parse number_text =
     Some (JObj [(U ''messages'', JArr []), (U ''weight'', JNum (NFinite False 5 (- 1))),
                 (U ''id'', JNum (NFinite False (Suc 0) 53))])"
  by (simp add: number_text_def js_eval parse_eval make_number_2_5 make_number_2_53)

lemma number_text_line:
  "split_nl number_text = [number_text]" "trim number_text \<noteq> []"
proof -
  show "split_nl number_text = [number_text]"
    by (rule split_nl_no_newline) (simp add: number_text_def U_def)
  show "trim number_text \<noteq> []"
    by (simp add: number_text_def trim_def U_def is_trim_space_def)
qed

lemma number_store_eval:
  "number_store =
     \<lparr>heap = [JObj [(U ''messages'', JArr []), (U ''weight'', JNum (NFinite False 5 (- 1))),
                    (U ''id'', JNum (NFinite False (Suc 0) 53))]],
      conversations = [Obj 0], selectedConversation = Prim JNull, searchTerm = [],
      errors = [], editingMessage = None, editedContent = []\<rparr>"
  by (simp add: number_store_def parseContent_def parse_line_def initial_store_def
      number_text_line number_parse new_ref_def is_object_def)

theorem export_import_roundtrip_witness:
  "contents number_store =
     [JObj [(U ''messages'', JArr []), (U ''weight'', JNum (NFinite False 5 (- 1))),
            (U ''id'', JNum (NFinite False (Suc 0) 53))]]
   \<and> plain_numbers (contents number_store ! 0)
   \<and> contents (parseContent initial_store
        (export_text (heap number_store) (conversations number_store)))
       = contents number_store
   \<and> snd (handleDownload number_store) =
       [DownloadFile (U ''conversations.jsonl'') (U ''application/json'')
          (export_text (heap number_store) (conversations number_store))]"
proof -
  have c: "contents number_store =
     [JObj [(U ''messages'', JArr []), (U ''weight'', JNum (NFinite False 5 (- 1))),
            (U ''id'', JNum (NFinite False (Suc 0) 53))]]"
    by (simp add: number_store_eval contents_def deref_def)
  have p: "plain_numbers (contents number_store ! 0)"
    by (simp add: c plain_number_def)
  have h: "\<forall>v \<in> set (contents (parseContent initial_store number_text)). plain_numbers v"
    unfolding number_store_def[symmetric] by (simp add: c plain_number_def)
  have n: "conversations (parseContent initial_store number_text) \<noteq> []"
    unfolding number_store_def[symmetric] by (simp add: number_store_eval)
  from export_import_roundtrip [of initial_store initial_store number_text] h n
  have "contents (parseContent initial_store
          (export_text (heap (parseContent initial_store number_text))
             (conversations (parseContent initial_store number_text))))
         = contents (parseContent initial_store number_text)
     \<and> snd (handleDownload (parseContent initial_store number_text)) =
          [DownloadFile (U ''conversations.jsonl'') (U ''application/json'')
             (export_text (heap (parseContent initial_store number_text))
                (conversations (parseContent initial_store number_text)))]"
    by blast
  then have "contents (parseContent initial_store
          (export_text (heap number_store) (conversations number_store)))
         = contents number_store
     \<and> snd (handleDownload number_store) =
          [DownloadFile (U ''conversations.jsonl'') (U ''application/json'')
             (export_text (heap number_store) (conversations number_store))]"
    unfolding number_store_def[symmetric] .
  with c p show ?thesis by blast
qed

lemma make_number_1e999: "make_number False (Suc 0) 999 = NInfinity False"
proof -
  define k :: nat where "k = 10 ^ 999"
  have a: "(2::nat) ^ 1024 = 16 ^ 256" by simp
  have b: "(16::nat) ^ 256 \<le> 100 ^ 256" by (rule power_mono) simp_all
  have "(100::nat) = 10 ^ 2" by simp
  then have c: "(100::nat) ^ 256 = 10 ^ (2 * 256)" by (simp only: power_mult)
  have d: "(10::nat) ^ (2 * 256) \<le> 10 ^ 999" by (rule power_increasing) simp_all
  have "(2::nat) ^ 1024 \<le> k" unfolding a k_def using b c d by (simp only: order_trans)
  then have big: "2 ^ 1024 * Suc 0 \<le> k" by (simp only: mult_1_right One_nat_def[symmetric])
  have pos: "0 < k" unfolding k_def by (rule zero_less_power) (rule zero_less_numeral)
  have one: "0 < Suc 0" by (rule zero_less_Suc)
  have inf: "to_double False k (Suc 0) = NInfinity False"
    using pos one big by (rule to_double_overflow)
  have n: "nat 999 = 999" by (rule nat_numeral)
  have "make_number False (Suc 0) 999 = to_double False (Suc 0 * 10 ^ nat 999) 1"
    by (simp only: make_number_def if_True zero_le_numeral)
  also have "Suc 0 * 10 ^ nat 999 = k"
    unfolding n k_def by (simp only: One_nat_def[symmetric] mult_1)
  finally show ?thesis using inf by (simp only: One_nat_def)
qed

lemma overflow_parse:
  "JSON_parse overflow_text =
     Some (JObj [(U ''messages'', JArr []), (U ''score'', JNum (NInfinity False))])"
  by (simp add: overflow_text_def js_eval parse_eval make_number_1e999)

lemma null_score_parse:
  \<open>JSON_parse (U ''{"messages":[],"score":null}'') =
     Some (JObj [(U ''messages'', JArr []), (U ''score'', JNull)])\<close>
  by (simp add: js_eval)

lemma overflow_text_line:
  "split_nl overflow_text = [overflow_text]" "trim overflow_text \<noteq> []"
proof -
  show "split_nl overflow_text = [overflow_text]"
    by (rule split_nl_no_newline) (simp add: overflow_text_def U_def)
  show "trim overflow_text \<noteq> []"
    by (simp add: overflow_text_def trim_def U_def is_trim_space_def)
qed

lemma overflow_store_eval:
  "overflow_store =
     \<lparr>heap = [JObj [(U ''messages'', JArr []), (U ''score'', JNum (NInfinity False))]],
      conversations = [Obj 0], selectedConversation = Prim JNull, searchTerm = [],
      errors = [], editingMessage = None, editedContent = []\<rparr>"
  by (simp add: overflow_store_def parseContent_def parse_line_def initial_store_def
      overflow_text_line overflow_parse new_ref_def is_object_def)

lemma overflow_export:
  \<open>export_text (heap overflow_store) (conversations overflow_store) =
     U ''{"messages":[],"score":null}''\<close>
  by (simp add: overflow_store_eval export_text_def js_eval)

theorem overflow_not_restored:
  \<open>contents overflow_store =
     [JObj [(U ''messages'', JArr []), (U ''score'', JNum (NInfinity False))]]
   \<and> snd (handleDownload overflow_store) =
       [DownloadFile (U ''conversations.jsonl'') (U ''application/json'')
          (U ''{"messages":[],"score":null}'')]
   \<and> contents (parseContent overflow_store (U ''{"messages":[],"score":null}'')) =
       [JObj [(U ''messages'', JArr []), (U ''score'', JNull)]]\<close>
proof -
  have 1: "contents overflow_store =
     [JObj [(U ''messages'', JArr []), (U ''score'', JNum (NInfinity False))]]"
    by (simp add: overflow_store_eval contents_def deref_def)
  have 2: \<open>snd (handleDownload overflow_store) =
       [DownloadFile (U ''conversations.jsonl'') (U ''application/json'')
          (U ''{"messages":[],"score":null}'')]\<close>
    using overflow_export by (simp add: handleDownload_def overflow_store_eval)
  have l: \<open>split_nl (U ''{"messages":[],"score":null}'') = [U ''{"messages":[],"score":null}'']\<close>
    by (rule split_nl_no_newline) (simp add: U_def)
  have nb: \<open>non_blank (U ''{"messages":[],"score":null}'')\<close>
    by (simp add: non_blank_def trim_def U_def is_trim_space_def)
  have 3: \<open>contents (parseContent overflow_store (U ''{"messages":[],"score":null}'')) =
       [JObj [(U ''messages'', JArr []), (U ''score'', JNull)]]\<close>
    unfolding parseContent_contents l using nb null_score_parse by simp
  from 1 2 3 show ?thesis by simp
qed

text \<open>A negative zero is written \<open>0\<close> and read as the positive zero; the two are equal
  by \<open>===\<close>, and \<open>Object.is\<close> tells them apart.\<close>

lemma negative_zero_parse:
  "JSON_parse negative_zero_text =
     Some (JObj [(U ''messages'', JArr []), (U ''score'', JNum (NFinite True 0 0))])"
  by (simp add: negative_zero_text_def js_eval parse_eval make_number_zero)

lemma zero_score_parse:
  \<open>JSON_parse (U ''{"messages":[],"score":0}'') =
     Some (JObj [(U ''messages'', JArr []), (U ''score'', JNum (NFinite False 0 0))])\<close>
  by (simp add: js_eval parse_eval make_number_zero)

lemma negative_zero_text_line:
  "split_nl negative_zero_text = [negative_zero_text]" "trim negative_zero_text \<noteq> []"
proof -
  show "split_nl negative_zero_text = [negative_zero_text]"
    by (rule split_nl_no_newline) (simp add: negative_zero_text_def U_def)
  show "trim negative_zero_text \<noteq> []"
    by (simp add: negative_zero_text_def trim_def U_def is_trim_space_def)
qed

lemma negative_zero_store_eval:
  "negative_zero_store =
     \<lparr>heap = [JObj [(U ''messages'', JArr []), (U ''score'', JNum (NFinite True 0 0))]],
      conversations = [Obj 0], selectedConversation = Prim JNull, searchTerm = [],
      errors = [], editingMessage = None, editedContent = []\<rparr>"
  by (simp add: negative_zero_store_def parseContent_def parse_line_def initial_store_def
      negative_zero_text_line negative_zero_parse new_ref_def is_object_def)

lemma negative_zero_normalized:
  \<open>contents negative_zero_store =
     [JObj [(U ''messages'', JArr []), (U ''score'', JNum (NFinite True 0 0))]]
   \<and> export_text (heap negative_zero_store) (conversations negative_zero_store) =
       U ''{"messages":[],"score":0}''
   \<and> contents (parseContent negative_zero_store (U ''{"messages":[],"score":0}'')) =
       [JObj [(U ''messages'', JArr []), (U ''score'', JNum (NFinite False 0 0))]]\<close>
proof -
  have 1: "contents negative_zero_store =
     [JObj [(U ''messages'', JArr []), (U ''score'', JNum (NFinite True 0 0))]]"
    by (simp add: negative_zero_store_eval contents_def deref_def)
  have 2: \<open>export_text (heap negative_zero_store) (conversations negative_zero_store) =
       U ''{"messages":[],"score":0}''\<close>
    by (simp add: negative_zero_store_eval export_text_def js_eval number_to_string_def)
  have l: \<open>split_nl (U ''{"messages":[],"score":0}'') = [U ''{"messages":[],"score":0}'']\<close>
    by (rule split_nl_no_newline) (simp add: U_def)
  have nb: \<open>non_blank (U ''{"messages":[],"score":0}'')\<close>
    by (simp add: non_blank_def trim_def U_def is_trim_space_def)
  have 3: \<open>contents (parseContent negative_zero_store (U ''{"messages":[],"score":0}'')) =
       [JObj [(U ''messages'', JArr []), (U ''score'', JNum (NFinite False 0 0))]]\<close>
    unfolding parseContent_contents l using nb zero_score_parse by simp
  from 1 2 3 show ?thesis by simp
qed

end
